theory Spec2Isabelle
  imports Main
begin

section \<open>Data model of \<open>tic_tac_toe.logic.models\<close>\<close>

text \<open>
  A Python \<open>str\<close> is modelled as a \<open>string\<close>, one \<open>char\<close> per code point; the
  model covers the code points below 256. The exceptions of the library are the
  values of \<open>error\<close>: \<open>ValueError\<close> is what \<open>validate_grid\<close> raises,
  \<open>IndexError\<close> is what indexing a \<open>str\<close> out of range raises, the other three are
  the classes of \<open>tic_tac_toe.logic.exceptions\<close>.
\<close>

datatype error = ValueError | IndexError | InvalidGameState | InvalidMove | UnknownGameScore

datatype Mark = CROSS | NAUGHT

text \<open>\<open>Mark\<close> is a \<open>str\<close> enum: \<open>mark_value\<close> is the member's value, a one-character string.\<close>

fun mark_value :: "Mark \<Rightarrow> char" where
  "mark_value CROSS = CHR ''X''"
| "mark_value NAUGHT = CHR ''O''"

text \<open>\<open>Mark.other\<close>: \<open>Mark.CROSS if self is Mark.NAUGHT else Mark.NAUGHT\<close>.\<close>

definition other :: "Mark \<Rightarrow> Mark" where
  "other m = (if m = NAUGHT then CROSS else NAUGHT)"

text \<open>\<open>for mark in Mark\<close> iterates the members in declaration order.\<close>

definition all_marks :: "Mark list" where
  "all_marks = [CROSS, NAUGHT]"

definition WINNING_PATTERNS :: "string list" where
  "WINNING_PATTERNS =
    [''???......'',
     ''...???...'',
     ''......???'',
     ''?..?..?..'',
     ''.?..?..?.'',
     ''..?..?..?'',
     ''?...?...?'',
     ''..?.?.?..'']"

record Grid =
  cells :: string

record GameState =
  grid :: Grid
  starting_mark :: Mark

record Move =
  mark :: Mark
  cell_index :: int
  before_state :: GameState
  after_state :: GameState

section \<open>The regular expressions and string operations the code uses\<close>

text \<open>
  The class \<open>\s\<close> of a \<open>str\<close> pattern is Unicode whitespace. Below 256 these are the
  code points 9 to 13, 28 to 32, 133 and 160.
\<close>

definition is_space :: "char \<Rightarrow> bool" where
  "is_space c = (of_char c \<in> {9, 10, 11, 12, 13, 28, 29, 30, 31, 32, 133, 160 :: nat})"

definition newline :: char where
  "newline = CHR 0x0A"

text \<open>The class \<open>[\sXO]\<close>.\<close>

definition grid_class :: "char \<Rightarrow> bool" where
  "grid_class c = (is_space c \<or> c = CHR ''X'' \<or> c = CHR ''O'')"

text \<open>
  \<open>$\<close> without \<open>re.MULTILINE\<close> matches at the end of the string and also just before
  a line feed that is the last character.
\<close>

definition re_dollar :: "string \<Rightarrow> bool" where
  "re_dollar rest = (rest = [] \<or> rest = [newline])"

text \<open>
  \<open>re.match(r"^[\sXO]{9}$", s)\<close>: nine characters of the class from the start of the
  string, and then \<open>$\<close>.
\<close>

definition match_grid_re :: "string \<Rightarrow> bool" where
  "match_grid_re s =
     (length (take 9 s) = 9 \<and> list_all grid_class (take 9 s) \<and> re_dollar (drop 9 s))"

text \<open>\<open>pattern.replace("?", mark)\<close>.\<close>

definition replace_qm :: "string \<Rightarrow> Mark \<Rightarrow> string" where
  "replace_qm pattern m = map (\<lambda>c. if c = CHR ''?'' then mark_value m else c) pattern"

text \<open>
  \<open>re.match(p, s)\<close> for a pattern \<open>p\<close> made of \<open>.\<close> and of literal letters, which
  is what \<open>replace_qm\<close> makes of a winning pattern: the match is anchored at the start
  of \<open>s\<close> only, a letter matches itself and \<open>.\<close> matches every character but the line
  feed.
\<close>

fun re_match :: "string \<Rightarrow> string \<Rightarrow> bool" where
  "re_match [] s = True"
| "re_match (p # ps) [] = False"
| "re_match (p # ps) (c # cs) =
     ((if p = CHR ''.'' then c \<noteq> newline else c = p) \<and> re_match ps cs)"

text \<open>
  \<open>[match.start() for match in re.finditer(r, s)]\<close> for a pattern \<open>r\<close> that matches
  one character: the indices of the characters of \<open>s\<close> that satisfy \<open>P\<close>, ascending.
\<close>

definition finditer_starts :: "(char \<Rightarrow> bool) \<Rightarrow> string \<Rightarrow> int list" where
  "finditer_starts P s = map int (filter (\<lambda>i. P (s ! i)) [0 ..< length s])"

text \<open>
  \<open>s[i]\<close>: a negative index counts from the end, and an index with no character
  raises \<open>IndexError\<close>.
\<close>

definition py_index :: "string \<Rightarrow> int \<Rightarrow> error + char" where
  "py_index s i =
     (if 0 \<le> i \<and> i < int (length s) then Inr (s ! nat i)
      else if - int (length s) \<le> i \<and> i < 0 then Inr (s ! nat (i + int (length s)))
      else Inl IndexError)"

text \<open>A slice bound: negative bounds count from the end, and every bound is clamped.\<close>

definition slice_bound :: "string \<Rightarrow> int \<Rightarrow> nat" where
  "slice_bound s i =
     (if i < 0 then nat (max 0 (i + int (length s))) else min (nat i) (length s))"

text \<open>\<open>s[:i]\<close> and \<open>s[i:]\<close>.\<close>

definition slice_to :: "string \<Rightarrow> int \<Rightarrow> string" where
  "slice_to s i = take (slice_bound s i) s"

definition slice_from :: "string \<Rightarrow> int \<Rightarrow> string" where
  "slice_from s i = drop (slice_bound s i) s"

section \<open>\<open>Grid\<close>\<close>

text \<open>\<open>validate_grid\<close> of \<open>tic_tac_toe.logic.validators\<close>.\<close>

definition validate_grid :: "Grid \<Rightarrow> error + unit" where
  "validate_grid g = (if \<not> match_grid_re (cells g) then Inl ValueError else Inr ())"

text \<open>The constructor \<open>Grid(cells)\<close>: the dataclass, then \<open>__post_init__\<close>.\<close>

definition new_Grid :: "string \<Rightarrow> error + Grid" where
  "new_Grid cs =
     (case validate_grid \<lparr>cells = cs\<rparr> of
        Inl e \<Rightarrow> Inl e
      | Inr u \<Rightarrow> Inr \<lparr>cells = cs\<rparr>)"

definition x_count :: "Grid \<Rightarrow> int" where
  "x_count g = int (count_list (cells g) (CHR ''X''))"

definition o_count :: "Grid \<Rightarrow> int" where
  "o_count g = int (count_list (cells g) (CHR ''O''))"

definition empty_count :: "Grid \<Rightarrow> int" where
  "empty_count g = int (count_list (cells g) (CHR '' ''))"

section \<open>\<open>GameState\<close>: derived facts\<close>

definition current_mark :: "GameState \<Rightarrow> Mark" where
  "current_mark s =
     (if x_count (grid s) = o_count (grid s) then starting_mark s
      else other (starting_mark s))"

definition game_not_started :: "GameState \<Rightarrow> bool" where
  "game_not_started s = (empty_count (grid s) = 9)"

text \<open>
  The two nested loops of \<open>winner\<close> and \<open>winning_cells\<close>: the first pair of a pattern
  and a mark, patterns outermost, whose pattern matches the cells.
\<close>

fun first_mark :: "string \<Rightarrow> Mark list \<Rightarrow> string \<Rightarrow> Mark option" where
  "first_mark pattern [] cs = None"
| "first_mark pattern (m # ms) cs =
     (if re_match (replace_qm pattern m) cs then Some m else first_mark pattern ms cs)"

fun first_win :: "string list \<Rightarrow> string \<Rightarrow> (string \<times> Mark) option" where
  "first_win [] cs = None"
| "first_win (pattern # ps) cs =
     (case first_mark pattern all_marks cs of
        Some m \<Rightarrow> Some (pattern, m)
      | None \<Rightarrow> first_win ps cs)"

definition winner :: "GameState \<Rightarrow> Mark option" where
  "winner s = map_option snd (first_win WINNING_PATTERNS (cells (grid s)))"

definition winning_cells :: "GameState \<Rightarrow> int list" where
  "winning_cells s =
     (case first_win WINNING_PATTERNS (cells (grid s)) of
        Some (pattern, m) \<Rightarrow> finditer_starts (\<lambda>c. c = CHR ''?'') pattern
      | None \<Rightarrow> [])"

definition tie :: "GameState \<Rightarrow> bool" where
  "tie s = (winner s = None \<and> empty_count (grid s) = 0)"

definition game_over :: "GameState \<Rightarrow> bool" where
  "game_over s = (winner s \<noteq> None \<or> tie s)"

section \<open>Validators of a \<open>GameState\<close>\<close>

definition validate_number_of_marks :: "Grid \<Rightarrow> error + unit" where
  "validate_number_of_marks g =
     (if \<bar>x_count g - o_count g\<bar> > 1 then Inl InvalidGameState else Inr ())"

definition validate_starting_mark :: "Grid \<Rightarrow> Mark \<Rightarrow> error + unit" where
  "validate_starting_mark g sm =
     (if x_count g > o_count g then
        (if sm \<noteq> CROSS then Inl InvalidGameState else Inr ())
      else if o_count g > x_count g then
        (if sm \<noteq> NAUGHT then Inl InvalidGameState else Inr ())
      else Inr ())"

definition validate_winner :: "Grid \<Rightarrow> Mark \<Rightarrow> Mark option \<Rightarrow> error + unit" where
  "validate_winner g sm w =
     (if w = Some CROSS then
        (if sm = CROSS then
           (if x_count g \<le> o_count g then Inl InvalidGameState else Inr ())
         else
           (if x_count g \<noteq> o_count g then Inl InvalidGameState else Inr ()))
      else if w = Some NAUGHT then
        (if sm = NAUGHT then
           (if o_count g \<le> x_count g then Inl InvalidGameState else Inr ())
         else
           (if o_count g \<noteq> x_count g then Inl InvalidGameState else Inr ()))
      else Inr ())"

definition validate_game_state :: "GameState \<Rightarrow> error + unit" where
  "validate_game_state s =
     (case validate_number_of_marks (grid s) of
        Inl e \<Rightarrow> Inl e
      | Inr u \<Rightarrow>
          (case validate_starting_mark (grid s) (starting_mark s) of
             Inl e \<Rightarrow> Inl e
           | Inr u \<Rightarrow> validate_winner (grid s) (starting_mark s) (winner s)))"

text \<open>The constructor \<open>GameState(grid, starting_mark)\<close>.\<close>

definition new_GameState :: "Grid \<Rightarrow> Mark \<Rightarrow> error + GameState" where
  "new_GameState g sm =
     (case validate_game_state \<lparr>grid = g, starting_mark = sm\<rparr> of
        Inl e \<Rightarrow> Inl e
      | Inr u \<Rightarrow> Inr \<lparr>grid = g, starting_mark = sm\<rparr>)"

text \<open>
  The states that exist at run time: a \<open>Grid\<close> that its constructor accepted, in a
  \<open>GameState\<close> that its constructor accepted.
\<close>

definition constructed :: "GameState \<Rightarrow> bool" where
  "constructed s = (validate_grid (grid s) = Inr () \<and> validate_game_state s = Inr ())"

section \<open>\<open>GameState\<close>: operations\<close>

definition make_move_to :: "GameState \<Rightarrow> int \<Rightarrow> error + Move" where
  "make_move_to s index =
     (case py_index (cells (grid s)) index of
        Inl e \<Rightarrow> Inl e
      | Inr c \<Rightarrow>
          if c \<noteq> CHR '' '' then Inl InvalidMove
          else
            (case new_Grid (slice_to (cells (grid s)) index
                            @ [mark_value (current_mark s)]
                            @ slice_from (cells (grid s)) (index + 1)) of
               Inl e \<Rightarrow> Inl e
             | Inr g \<Rightarrow>
                 (case new_GameState g (starting_mark s) of
                    Inl e \<Rightarrow> Inl e
                  | Inr s' \<Rightarrow>
                      Inr \<lparr>mark = current_mark s, cell_index = index,
                           before_state = s, after_state = s'\<rparr>)))"

text \<open>The loop of \<open>possible_moves\<close>: an exception of \<open>make_move_to\<close> leaves the loop.\<close>

fun moves_at :: "GameState \<Rightarrow> int list \<Rightarrow> error + Move list" where
  "moves_at s [] = Inr []"
| "moves_at s (i # is) =
     (case make_move_to s i of
        Inl e \<Rightarrow> Inl e
      | Inr m \<Rightarrow>
          (case moves_at s is of
             Inl e \<Rightarrow> Inl e
           | Inr ms \<Rightarrow> Inr (m # ms)))"

definition possible_moves :: "GameState \<Rightarrow> error + Move list" where
  "possible_moves s =
     (if \<not> game_over s then moves_at s (finditer_starts is_space (cells (grid s)))
      else Inr [])"

definition evaluate_score :: "GameState \<Rightarrow> Mark \<Rightarrow> error + int" where
  "evaluate_score s m =
     (if game_over s then
        (if tie s then Inr 0
         else if winner s = Some m then Inr 1
         else Inr (- 1))
      else Inl UnknownGameScore)"

section \<open>The winner as the specification words it\<close>

text \<open>
  The eight winning lines as index triples, in the order of \<open>WINNING_PATTERNS\<close>:
  three rows, three columns, two diagonals. A line is held by a mark when its three
  cells hold that mark; the winner is the mark of the first pair of a line and a
  mark, lines outermost and \<open>CROSS\<close> before \<open>NAUGHT\<close>, whose line is held, and the
  winning cells are the positions of that line.
\<close>

definition WINNING_LINES :: "nat list list" where
  "WINNING_LINES =
    [[0, 1, 2], [3, 4, 5], [6, 7, 8],
     [0, 3, 6], [1, 4, 7], [2, 5, 8],
     [0, 4, 8], [2, 4, 6]]"

definition line_held :: "string \<Rightarrow> nat list \<Rightarrow> Mark \<Rightarrow> bool" where
  "line_held cs line m = list_all (\<lambda>i. i < length cs \<and> cs ! i = mark_value m) line"

fun line_mark :: "nat list \<Rightarrow> Mark list \<Rightarrow> string \<Rightarrow> Mark option" where
  "line_mark line [] cs = None"
| "line_mark line (m # ms) cs =
     (if line_held cs line m then Some m else line_mark line ms cs)"

fun first_line :: "nat list list \<Rightarrow> string \<Rightarrow> (nat list \<times> Mark) option" where
  "first_line [] cs = None"
| "first_line (line # ls) cs =
     (case line_mark line [CROSS, NAUGHT] cs of
        Some m \<Rightarrow> Some (line, m)
      | None \<Rightarrow> first_line ls cs)"

definition spec_winner :: "string \<Rightarrow> Mark option" where
  "spec_winner cs = map_option snd (first_line WINNING_LINES cs)"

definition spec_winning_cells :: "string \<Rightarrow> int list" where
  "spec_winning_cells cs =
     (case first_line WINNING_LINES cs of
        Some (line, m) \<Rightarrow> map int line
      | None \<Rightarrow> [])"

text \<open>
  The cell sequences of the data model: nine symbols, each of them \<open>X\<close>, \<open>O\<close> or the
  space.
\<close>

definition proper_cells :: "string \<Rightarrow> bool" where
  "proper_cells cs =
     (length cs = 9 \<and> list_all (\<lambda>c. c = CHR ''X'' \<or> c = CHR ''O'' \<or> c = CHR '' '') cs)"

section \<open>Strings, slices and counts\<close>

lemma match_grid_re_length:
  assumes "match_grid_re s"
  shows "length s = 9 \<or> length s = 10"
proof -
  from assms have a: "9 \<le> length s"
    by (simp add: match_grid_re_def min_def split: if_splits)
  from assms have "drop 9 s = [] \<or> drop 9 s = [newline]"
    by (simp add: match_grid_re_def re_dollar_def)
  then have "length (drop 9 s) = 0 \<or> length (drop 9 s) = 1"
    by (metis length_0_conv length_Cons list.size(3) One_nat_def)
  with a show ?thesis by auto
qed

lemma match_grid_re_update:
  assumes "match_grid_re cs" and "k < 9" and "grid_class c"
  shows "match_grid_re (cs[k := c])"
proof -
  have "take 9 (cs[k := c]) = (take 9 cs)[k := c]"
    using assms(2) by (simp add: take_update_swap)
  moreover have "drop 9 (cs[k := c]) = drop 9 cs"
    using assms(2) by simp
  moreover have "list_all grid_class ((take 9 cs)[k := c])"
  proof -
    have "set ((take 9 cs)[k := c]) \<subseteq> insert c (set (take 9 cs))"
      by (rule set_update_subset_insert)
    then show ?thesis
      using assms(1,3) unfolding match_grid_re_def list_all_iff by auto
  qed
  ultimately show ?thesis
    using assms(1) by (simp add: match_grid_re_def)
qed

lemma count_list_update:
  "k < length xs \<Longrightarrow>
   int (count_list (xs[k := c]) a) =
     int (count_list xs a) - (if xs ! k = a then 1 else 0) + (if c = a then 1 else 0)"
proof (induction xs arbitrary: k)
  case Nil
  then show ?case by simp
next
  case (Cons x xs)
  show ?case
  proof (cases k)
    case 0
    then show ?thesis by simp
  next
    case (Suc j)
    with Cons.prems have "j < length xs" by simp
    from Cons.IH [OF this] Suc show ?thesis by (auto split: if_splits)
  qed
qed

lemma slices_update:
  assumes "0 \<le> i" and "i < int (length s)"
  shows "slice_to s i @ [c] @ slice_from s (i + 1) = s[nat i := c]"
proof -
  have "slice_to s i = take (nat i) s"
    using assms by (simp add: slice_to_def slice_bound_def)
  moreover have "slice_from s (i + 1) = drop (Suc (nat i)) s"
    using assms by (simp add: slice_from_def slice_bound_def min_def nat_add_distrib)
  ultimately show ?thesis
    using assms by (simp add: upd_conv_take_nth_drop)
qed

lemma slices_update_neg:
  assumes "- int (length s) \<le> i" and "i < - 1"
  shows "slice_to s i @ [c] @ slice_from s (i + 1) = s[nat (i + int (length s)) := c]"
proof -
  have "slice_to s i = take (nat (i + int (length s))) s"
    using assms by (simp add: slice_to_def slice_bound_def)
  moreover have "slice_from s (i + 1) = drop (Suc (nat (i + int (length s)))) s"
  proof -
    have "nat (max 0 (i + 1 + int (length s))) = Suc (nat (i + int (length s)))"
      using assms by auto
    then show ?thesis
      using assms by (simp add: slice_from_def slice_bound_def)
  qed
  moreover have "nat (i + int (length s)) < length s"
    using assms by auto
  ultimately show ?thesis
    by (simp add: upd_conv_take_nth_drop)
qed

lemma slices_minus_one_length:
  assumes "s \<noteq> []"
  shows "length (slice_to s (- 1) @ [c] @ slice_from s (- 1 + 1)) = 2 * length s"
  using assms by (cases s) (auto simp: slice_to_def slice_from_def slice_bound_def)

lemma re_match_update:
  assumes "re_match q (cs[k := c])" and "c \<notin> set q" and "k < length cs"
    and "cs ! k \<noteq> newline"
  shows "re_match q cs"
  using assms
proof (induction q cs arbitrary: k rule: re_match.induct)
  case (1 s)
  then show ?case by simp
next
  case (2 p ps)
  then show ?case by simp
next
  case (3 p ps x xs)
  show ?case
  proof (cases k)
    case 0
    with "3.prems" show ?thesis by (auto split: if_splits)
  next
    case (Suc j)
    with "3.prems" have "re_match ps (xs[j := c])" and "c \<notin> set ps" and "j < length xs"
      and "xs ! j \<noteq> newline"
      by auto
    then have "re_match ps xs" by (rule "3.IH")
    with "3.prems" Suc show ?thesis by auto
  qed
qed

section \<open>Construction\<close>

lemma constructed_length:
  "constructed s \<Longrightarrow> length (cells (grid s)) = 9 \<or> length (cells (grid s)) = 10"
  by (auto simp: constructed_def validate_grid_def dest: match_grid_re_length split: if_splits)

lemma new_Grid_Inr: "new_Grid cs = Inr g \<Longrightarrow> g = \<lparr>cells = cs\<rparr> \<and> match_grid_re cs"
  by (auto simp: new_Grid_def validate_grid_def split: if_splits sum.splits)

lemma new_GameState_Inr:
  "new_GameState g sm = Inr s' \<Longrightarrow>
   s' = \<lparr>grid = g, starting_mark = sm\<rparr> \<and> validate_game_state s' = Inr ()"
  by (auto simp: new_GameState_def split: sum.splits)

lemma constructed_counts:
  assumes "constructed s"
  shows "\<bar>x_count (grid s) - o_count (grid s)\<bar> \<le> 1"
    and "x_count (grid s) > o_count (grid s) \<Longrightarrow> starting_mark s = CROSS"
    and "o_count (grid s) > x_count (grid s) \<Longrightarrow> starting_mark s = NAUGHT"
  using assms
  by (auto simp: constructed_def validate_game_state_def validate_number_of_marks_def
      validate_starting_mark_def split: if_splits sum.splits)

text \<open>
  C6: constructing a \<open>GameState\<close> whose grid has \<open>x_count - o_count > 1\<close> or
  \<open>x_count - o_count < -1\<close> always fails with \<open>InvalidGameState\<close>, so that no such
  instance exists.
\<close>

theorem skewed_counts_rejected:
  assumes "x_count g - o_count g > 1 \<or> x_count g - o_count g < - 1"
  shows "new_GameState g sm = Inl InvalidGameState
         \<and> \<not> constructed \<lparr>grid = g, starting_mark = sm\<rparr>"
  using assms
  by (auto simp: new_GameState_def validate_game_state_def validate_number_of_marks_def
      constructed_def)

theorem skewed_counts_rejected_witness:
  "x_count \<lparr>cells = ''XX       ''\<rparr> - o_count \<lparr>cells = ''XX       ''\<rparr> > 1
   \<and> new_GameState \<lparr>cells = ''XX       ''\<rparr> CROSS = Inl InvalidGameState
   \<and> \<not> constructed \<lparr>grid = \<lparr>cells = ''XX       ''\<rparr>, starting_mark = CROSS\<rparr>"
proof -
  have h: "x_count \<lparr>cells = ''XX       ''\<rparr> - o_count \<lparr>cells = ''XX       ''\<rparr> > 1"
    by (simp add: x_count_def o_count_def)
  then show ?thesis
    using skewed_counts_rejected [of "\<lparr>cells = ''XX       ''\<rparr>" CROSS] by blast
qed

text \<open>
  What the constructor of \<open>Grid\<close> does: it accepts the cell sequences of the data
  model, and it rejects a sequence shorter than 9 or longer than 10 characters, and
  one with a character outside \<open>[\sXO]\<close> among the first nine.
\<close>

lemma proper_cells_match:
  assumes "proper_cells cs"
  shows "match_grid_re cs"
proof -
  from assms have len: "length cs = 9"
    and sym: "list_all (\<lambda>c. c = CHR ''X'' \<or> c = CHR ''O'' \<or> c = CHR '' '') cs"
    by (simp_all add: proper_cells_def)
  have "is_space (CHR '' '')"
    by (simp add: is_space_def)
  with sym have "list_all grid_class cs"
    unfolding list_all_iff grid_class_def by blast
  moreover from len have "take 9 cs = cs" and "drop 9 cs = []"
    by simp_all
  ultimately show ?thesis
    using len by (simp add: match_grid_re_def re_dollar_def)
qed

lemma new_Grid_accepts_proper: "proper_cells cs \<Longrightarrow> new_Grid cs = Inr \<lparr>cells = cs\<rparr>"
  by (simp add: new_Grid_def validate_grid_def proper_cells_match)

lemma new_Grid_rejects:
  assumes "length cs < 9 \<or> 10 < length cs
     \<or> (\<exists>c \<in> set (take 9 cs). \<not> is_space c \<and> c \<noteq> CHR ''X'' \<and> c \<noteq> CHR ''O'')"
  shows "new_Grid cs = Inl ValueError"
proof -
  have "\<not> match_grid_re cs"
  proof
    assume m: "match_grid_re cs"
    from match_grid_re_length [OF m] assms
    obtain c where "c \<in> set (take 9 cs)" and "\<not> grid_class c"
      by (auto simp: grid_class_def)
    with m show False
      by (auto simp: match_grid_re_def list_all_iff)
  qed
  then show ?thesis
    by (simp add: new_Grid_def validate_grid_def)
qed

text \<open>
  C7: \<open>Grid\<close> is to reject every cell sequence that is not of length 9 or that holds a
  symbol other than \<open>X\<close>, \<open>O\<close> and the space. The constructor accepts nine tabs, and a
  sequence of ten characters whose last one is a line feed.
\<close>

theorem tabs_grid_accepted:
  "new_Grid (replicate 9 (CHR 0x09)) = Inr \<lparr>cells = replicate 9 (CHR 0x09)\<rparr>
   \<and> new_Grid (''XXXOO    '' @ [CHR 0x0A]) = Inr \<lparr>cells = ''XXXOO    '' @ [CHR 0x0A]\<rparr>"
  by code_simp

text \<open>On the cell sequences of the data model the three counts add up to 9.\<close>

lemma counts_partition:
  assumes "list_all (\<lambda>c. c = CHR ''X'' \<or> c = CHR ''O'' \<or> c = CHR '' '') cs"
  shows "count_list cs (CHR ''X'') + count_list cs (CHR ''O'') + count_list cs (CHR '' '')
         = length cs"
  using assms by (induction cs) auto

lemma proper_counts:
  assumes "proper_cells (cells g)"
  shows "x_count g + o_count g + empty_count g = 9"
proof -
  from assms have "length (cells g) = 9"
    and "list_all (\<lambda>c. c = CHR ''X'' \<or> c = CHR ''O'' \<or> c = CHR '' '') (cells g)"
    by (simp_all add: proper_cells_def)
  with counts_partition [of "cells g"] show ?thesis
    by (simp add: x_count_def o_count_def empty_count_def)
qed

text \<open>
  C8: \<open>x_count + o_count + empty_count\<close> is to be 9 for every constructed \<open>Grid\<close>. For
  the grid of nine tabs, which the constructor accepts, the sum is 0.
\<close>

theorem tabs_grid_counts:
  "new_Grid (replicate 9 (CHR 0x09)) = Inr \<lparr>cells = replicate 9 (CHR 0x09)\<rparr>
   \<and> x_count \<lparr>cells = replicate 9 (CHR 0x09)\<rparr>
     + o_count \<lparr>cells = replicate 9 (CHR 0x09)\<rparr>
     + empty_count \<lparr>cells = replicate 9 (CHR 0x09)\<rparr> = 0"
  by code_simp

section \<open>Scores\<close>

text \<open>
  C5: \<open>evaluate_score(mark)\<close> fails with \<open>UnknownGameScore\<close> if and only if the state
  is not \<open>game_over\<close>; when \<open>game_over\<close> holds it returns 0 on a tie, 1 if \<open>mark\<close> is
  the winner and -1 if the other mark is the winner.
\<close>

theorem evaluate_score_spec:
  "(evaluate_score s m = Inl UnknownGameScore \<longleftrightarrow> \<not> game_over s)
   \<and> (game_over s \<longrightarrow>
        (tie s \<longrightarrow> evaluate_score s m = Inr 0)
      \<and> (winner s = Some m \<longrightarrow> evaluate_score s m = Inr 1)
      \<and> (winner s = Some (other m) \<longrightarrow> evaluate_score s m = Inr (- 1)))"
  by (cases m) (auto simp: evaluate_score_def tie_def game_over_def other_def)

theorem evaluate_score_spec_witness:
  "game_over \<lparr>grid = \<lparr>cells = ''XXXOO    ''\<rparr>, starting_mark = CROSS\<rparr>
   \<and> winner \<lparr>grid = \<lparr>cells = ''XXXOO    ''\<rparr>, starting_mark = CROSS\<rparr> = Some CROSS
   \<and> evaluate_score \<lparr>grid = \<lparr>cells = ''XXXOO    ''\<rparr>, starting_mark = CROSS\<rparr> CROSS = Inr 1
   \<and> winner \<lparr>grid = \<lparr>cells = ''XXXOO    ''\<rparr>, starting_mark = CROSS\<rparr> = Some (other NAUGHT)
   \<and> evaluate_score \<lparr>grid = \<lparr>cells = ''XXXOO    ''\<rparr>, starting_mark = CROSS\<rparr> NAUGHT = Inr (- 1)
   \<and> game_over \<lparr>grid = \<lparr>cells = ''XOXXOOOXX''\<rparr>, starting_mark = CROSS\<rparr>
   \<and> tie \<lparr>grid = \<lparr>cells = ''XOXXOOOXX''\<rparr>, starting_mark = CROSS\<rparr>
   \<and> evaluate_score \<lparr>grid = \<lparr>cells = ''XOXXOOOXX''\<rparr>, starting_mark = CROSS\<rparr> CROSS = Inr 0
   \<and> \<not> game_over \<lparr>grid = \<lparr>cells = ''         ''\<rparr>, starting_mark = CROSS\<rparr>
   \<and> evaluate_score \<lparr>grid = \<lparr>cells = ''         ''\<rparr>, starting_mark = CROSS\<rparr> CROSS = Inl UnknownGameScore"
proof -
  have a: "game_over \<lparr>grid = \<lparr>cells = ''XXXOO    ''\<rparr>, starting_mark = CROSS\<rparr>"
    by code_simp
  have b: "winner \<lparr>grid = \<lparr>cells = ''XXXOO    ''\<rparr>, starting_mark = CROSS\<rparr> = Some CROSS"
    by code_simp
  have c: "tie \<lparr>grid = \<lparr>cells = ''XOXXOOOXX''\<rparr>, starting_mark = CROSS\<rparr>"
    by code_simp
  have d: "game_over \<lparr>grid = \<lparr>cells = ''XOXXOOOXX''\<rparr>, starting_mark = CROSS\<rparr>"
    by code_simp
  have e: "\<not> game_over \<lparr>grid = \<lparr>cells = ''         ''\<rparr>, starting_mark = CROSS\<rparr>"
    by code_simp
  have f: "other NAUGHT = CROSS"
    by (simp add: other_def)
  show ?thesis
    using a b c d e f
      evaluate_score_spec [of "\<lparr>grid = \<lparr>cells = ''XXXOO    ''\<rparr>, starting_mark = CROSS\<rparr>" CROSS]
      evaluate_score_spec [of "\<lparr>grid = \<lparr>cells = ''XXXOO    ''\<rparr>, starting_mark = CROSS\<rparr>" NAUGHT]
      evaluate_score_spec [of "\<lparr>grid = \<lparr>cells = ''XOXXOOOXX''\<rparr>, starting_mark = CROSS\<rparr>" CROSS]
      evaluate_score_spec [of "\<lparr>grid = \<lparr>cells = ''         ''\<rparr>, starting_mark = CROSS\<rparr>" CROSS]
    by simp
qed

section \<open>Moves\<close>

text \<open>
  What a successful \<open>make_move_to\<close> has done: one empty cell \<open>k\<close> of the grid holds
  the current mark, and the new state passed both constructors. A negative index
  from \<open>-2\<close> down counts from the end; \<open>-1\<close> never succeeds, because the two slices
  then overlap and the new cell sequence is twice as long.
\<close>

lemma make_move_to_Inr:
  assumes c: "constructed s" and mv: "make_move_to s index = Inr m"
  obtains k where "k < length (cells (grid s))"
    and "cells (grid s) ! k = CHR '' ''"
    and "0 \<le> index \<Longrightarrow> k = nat index"
    and "m = \<lparr>mark = current_mark s, cell_index = index, before_state = s,
              after_state = \<lparr>grid = \<lparr>cells = (cells (grid s))[k := mark_value (current_mark s)]\<rparr>,
                             starting_mark = starting_mark s\<rparr>\<rparr>"
    and "constructed (after_state m)"
proof -
  let ?cs = "cells (grid s)"
  let ?new = "slice_to ?cs index @ [mark_value (current_mark s)] @ slice_from ?cs (index + 1)"
  from mv obtain ch where ix: "py_index ?cs index = Inr ch"
    by (auto simp: make_move_to_def split: sum.splits)
  with mv have ch: "ch = CHR '' ''"
    by (auto simp: make_move_to_def split: sum.splits if_splits)
  from mv ix ch obtain g where g: "new_Grid ?new = Inr g"
    by (auto simp: make_move_to_def split: sum.splits)
  from mv ix ch g obtain s' where s': "new_GameState g (starting_mark s) = Inr s'"
    by (auto simp: make_move_to_def split: sum.splits)
  from mv ix ch g s' have m: "m = \<lparr>mark = current_mark s, cell_index = index,
      before_state = s, after_state = s'\<rparr>"
    by (simp add: make_move_to_def)
  from new_Grid_Inr [OF g] have g_eq: "g = \<lparr>cells = ?new\<rparr>" and g_ok: "match_grid_re ?new"
    by simp_all
  from new_GameState_Inr [OF s'] have s'_eq: "s' = \<lparr>grid = g, starting_mark = starting_mark s\<rparr>"
    and s'_ok: "validate_game_state s' = Inr ()"
    by blast+
  have cons': "constructed s'"
    using g_ok s'_ok s'_eq g_eq by (simp add: constructed_def validate_grid_def)
  from ix have range: "- int (length ?cs) \<le> index \<and> index < int (length ?cs)"
    by (auto simp: py_index_def split: if_splits)
  have not_last: "index \<noteq> - 1"
  proof
    assume i: "index = - 1"
    with range have "?cs \<noteq> []" by auto
    from slices_minus_one_length [OF this] i
    have "length ?new = 2 * length ?cs" by simp
    with match_grid_re_length [OF g_ok] constructed_length [OF c]
    show False by auto
  qed
  show thesis
  proof (cases "0 \<le> index")
    case True
    with range have lt: "index < int (length ?cs)" by simp
    have "?new = ?cs[nat index := mark_value (current_mark s)]"
      using slices_update [OF True lt] .
    moreover have "?cs ! nat index = CHR '' ''"
      using ix ch True lt by (simp add: py_index_def)
    moreover have "nat index < length ?cs"
      using True lt by simp
    ultimately show ?thesis
      using that [of "nat index"] m s'_eq g_eq cons' by simp
  next
    case False
    with not_last have lt: "index < - 1" by simp
    from range have ge: "- int (length ?cs) \<le> index" by simp
    let ?k = "nat (index + int (length ?cs))"
    have "?new = ?cs[?k := mark_value (current_mark s)]"
      using slices_update_neg [OF ge lt] .
    moreover have "?cs ! ?k = CHR '' ''"
      using ix ch False ge by (simp add: py_index_def)
    moreover have "?k < length ?cs"
      using ge lt by auto
    ultimately show ?thesis
      using that [of ?k] m s'_eq g_eq cons' False by simp
  qed
qed

lemma counts_after_move:
  assumes "k < length cs" and "cs ! k = CHR '' ''"
  shows "x_count \<lparr>cells = cs[k := mark_value m]\<rparr> =
           x_count \<lparr>cells = cs\<rparr> + (if m = CROSS then 1 else 0)"
    and "o_count \<lparr>cells = cs[k := mark_value m]\<rparr> =
           o_count \<lparr>cells = cs\<rparr> + (if m = NAUGHT then 1 else 0)"
    and "empty_count \<lparr>cells = cs[k := mark_value m]\<rparr> = empty_count \<lparr>cells = cs\<rparr> - 1"
  using assms
  by (cases m; simp add: x_count_def o_count_def empty_count_def count_list_update)+

lemma current_mark_after_move:
  assumes c: "constructed s" and k: "k < length (cells (grid s))"
    and e: "cells (grid s) ! k = CHR '' ''"
    and c': "constructed \<lparr>grid = \<lparr>cells = (cells (grid s))[k := mark_value (current_mark s)]\<rparr>,
                          starting_mark = starting_mark s\<rparr>"
  shows "current_mark \<lparr>grid = \<lparr>cells = (cells (grid s))[k := mark_value (current_mark s)]\<rparr>,
                       starting_mark = starting_mark s\<rparr> = other (current_mark s)"
proof -
  let ?s' = "\<lparr>grid = \<lparr>cells = (cells (grid s))[k := mark_value (current_mark s)]\<rparr>,
             starting_mark = starting_mark s\<rparr>"
  have g: "grid s = \<lparr>cells = cells (grid s)\<rparr>" by simp
  note before = constructed_counts [OF c]
  note after = constructed_counts [OF c']
  note cnt = counts_after_move(1,2) [OF k e, of "current_mark s", folded g]
  show ?thesis
  proof (cases "x_count (grid s) = o_count (grid s)")
    case True
    then have "x_count (grid ?s') \<noteq> o_count (grid ?s')"
      using cnt by (cases "current_mark s") simp_all
    then show ?thesis
      using True by (simp add: current_mark_def)
  next
    case False
    with before have cm: "current_mark s = other (starting_mark s)"
      by (simp add: current_mark_def)
    have "x_count (grid ?s') = o_count (grid ?s')"
      using False before after cnt cm
      by (cases "starting_mark s") (auto simp: other_def split: if_splits)
    then show ?thesis
      using cm by (cases "starting_mark s") (simp_all add: current_mark_def other_def)
  qed
qed

text \<open>
  C10: for every \<open>GameState\<close> \<open>s\<close> and every index on which \<open>make_move_to\<close> succeeds,
  the move \<open>m\<close> has \<open>m.mark = s.current_mark\<close> and the turn of \<open>m.after_state\<close> is the
  other mark; and \<open>current_mark\<close> is \<open>starting_mark\<close> exactly when
  \<open>x_count = o_count\<close>.
\<close>

theorem turn_alternation:
  assumes "constructed s" and "make_move_to s index = Inr m"
  shows "mark m = current_mark s
       \<and> current_mark (after_state m) = other (current_mark s)
       \<and> (current_mark s = starting_mark s \<longleftrightarrow> x_count (grid s) = o_count (grid s))"
proof -
  let ?cs = "cells (grid s)"
  from assms obtain k where k: "k < length ?cs" and e: "?cs ! k = CHR '' ''"
    and m: "m = \<lparr>mark = current_mark s, cell_index = index, before_state = s,
              after_state = \<lparr>grid = \<lparr>cells = ?cs[k := mark_value (current_mark s)]\<rparr>,
                             starting_mark = starting_mark s\<rparr>\<rparr>"
    and c': "constructed (after_state m)"
    by (rule make_move_to_Inr)
  have 1: "mark m = current_mark s"
    using m by simp
  have 2: "current_mark (after_state m) = other (current_mark s)"
    using current_mark_after_move [OF assms(1) k e] c' m by simp
  have 3: "current_mark s = starting_mark s \<longleftrightarrow> x_count (grid s) = o_count (grid s)"
    by (cases "starting_mark s") (simp_all add: current_mark_def other_def)
  from 1 2 3 show ?thesis by blast
qed

theorem turn_alternation_witness:
  "constructed \<lparr>grid = \<lparr>cells = ''XO       ''\<rparr>, starting_mark = CROSS\<rparr>
   \<and> make_move_to \<lparr>grid = \<lparr>cells = ''XO       ''\<rparr>, starting_mark = CROSS\<rparr> 4 =
       Inr \<lparr>mark = CROSS, cell_index = 4,
            before_state = \<lparr>grid = \<lparr>cells = ''XO       ''\<rparr>, starting_mark = CROSS\<rparr>,
            after_state = \<lparr>grid = \<lparr>cells = ''XO  X    ''\<rparr>, starting_mark = CROSS\<rparr>\<rparr>
   \<and> current_mark \<lparr>grid = \<lparr>cells = ''XO       ''\<rparr>, starting_mark = CROSS\<rparr> = CROSS
   \<and> current_mark \<lparr>grid = \<lparr>cells = ''XO  X    ''\<rparr>, starting_mark = CROSS\<rparr> = other CROSS"
proof -
  have a: "constructed \<lparr>grid = \<lparr>cells = ''XO       ''\<rparr>, starting_mark = CROSS\<rparr>"
    by code_simp
  have b: "make_move_to \<lparr>grid = \<lparr>cells = ''XO       ''\<rparr>, starting_mark = CROSS\<rparr> 4 =
       Inr \<lparr>mark = CROSS, cell_index = 4,
            before_state = \<lparr>grid = \<lparr>cells = ''XO       ''\<rparr>, starting_mark = CROSS\<rparr>,
            after_state = \<lparr>grid = \<lparr>cells = ''XO  X    ''\<rparr>, starting_mark = CROSS\<rparr>\<rparr>"
    by code_simp
  from turn_alternation [OF a b] a b show ?thesis by simp
qed

text \<open>
  C3, as stated: \<open>make_move_to\<close> fails with \<open>InvalidMove\<close> whenever the index is out
  of range or the cell is occupied. The code has no range check: on the empty board
  index 9 raises \<open>IndexError\<close>.
\<close>

theorem make_move_to_out_of_range_counterexample:
  "make_move_to \<lparr>grid = \<lparr>cells = ''         ''\<rparr>, starting_mark = CROSS\<rparr> 9 = Inl IndexError
   \<and> make_move_to \<lparr>grid = \<lparr>cells = ''         ''\<rparr>, starting_mark = CROSS\<rparr> 9 \<noteq> Inl InvalidMove"
  by code_simp

text \<open>
  C3, amended: when the index has a cell (\<open>0 \<le> index < len(cells)\<close>, or a negative
  index down to \<open>-len(cells)\<close>, which counts from the end) and that cell is not the
  space, \<open>make_move_to\<close> fails with \<open>InvalidMove\<close>; when the index has no cell it
  fails with \<open>IndexError\<close>.
\<close>

theorem make_move_to_failures:
  "(0 \<le> index \<and> index < int (length (cells (grid s)))
      \<and> cells (grid s) ! nat index \<noteq> CHR '' ''
      \<longrightarrow> make_move_to s index = Inl InvalidMove)
   \<and> (- int (length (cells (grid s))) \<le> index \<and> index < 0
      \<and> cells (grid s) ! nat (index + int (length (cells (grid s)))) \<noteq> CHR '' ''
      \<longrightarrow> make_move_to s index = Inl InvalidMove)
   \<and> (int (length (cells (grid s))) \<le> index \<or> index < - int (length (cells (grid s)))
      \<longrightarrow> make_move_to s index = Inl IndexError)"
  by (auto simp: make_move_to_def py_index_def)

theorem make_move_to_failures_witness:
  "cells (grid \<lparr>grid = \<lparr>cells = ''XO       ''\<rparr>, starting_mark = CROSS\<rparr>) ! nat 1 \<noteq> CHR '' ''
   \<and> make_move_to \<lparr>grid = \<lparr>cells = ''XO       ''\<rparr>, starting_mark = CROSS\<rparr> 1 = Inl InvalidMove
   \<and> make_move_to \<lparr>grid = \<lparr>cells = ''XO       ''\<rparr>, starting_mark = CROSS\<rparr> (- 9) = Inl InvalidMove
   \<and> make_move_to \<lparr>grid = \<lparr>cells = ''XO       ''\<rparr>, starting_mark = CROSS\<rparr> 9 = Inl IndexError
   \<and> make_move_to \<lparr>grid = \<lparr>cells = ''XO       ''\<rparr>, starting_mark = CROSS\<rparr> (- 10) = Inl IndexError"
  using make_move_to_failures [of 1 "\<lparr>grid = \<lparr>cells = ''XO       ''\<rparr>, starting_mark = CROSS\<rparr>"]
    make_move_to_failures [of "- 9" "\<lparr>grid = \<lparr>cells = ''XO       ''\<rparr>, starting_mark = CROSS\<rparr>"]
    make_move_to_failures [of 9 "\<lparr>grid = \<lparr>cells = ''XO       ''\<rparr>, starting_mark = CROSS\<rparr>"]
    make_move_to_failures [of "- 10" "\<lparr>grid = \<lparr>cells = ''XO       ''\<rparr>, starting_mark = CROSS\<rparr>"]
  by simp

text \<open>The winner after a move on a board without a winner is the mover, or nobody.\<close>

lemma first_mark_Some:
  "first_mark p ms cs = Some w \<Longrightarrow> w \<in> set ms \<and> re_match (replace_qm p w) cs"
  by (induction ms) (auto split: if_splits)

lemma first_mark_None:
  "first_mark p ms cs = None \<longleftrightarrow> (\<forall>w \<in> set ms. \<not> re_match (replace_qm p w) cs)"
  by (induction ms) auto

lemma first_win_Some:
  "first_win ps cs = Some (p, w) \<Longrightarrow> p \<in> set ps \<and> re_match (replace_qm p w) cs"
  by (induction ps) (auto split: option.splits dest: first_mark_Some)

lemma first_win_None:
  "first_win ps cs = None \<longleftrightarrow>
     (\<forall>p \<in> set ps. \<forall>w \<in> set all_marks. \<not> re_match (replace_qm p w) cs)"
proof (induction ps)
  case Nil
  then show ?case by simp
next
  case (Cons a ps)
  show ?case
  proof (cases "first_mark a all_marks cs")
    case None
    then have "\<forall>w \<in> set all_marks. \<not> re_match (replace_qm a w) cs"
      by (simp add: first_mark_None)
    with None Cons.IH show ?thesis by auto
  next
    case (Some w)
    with first_mark_Some [OF Some] show ?thesis by auto
  qed
qed

lemma winning_pattern_chars:
  "p \<in> set WINNING_PATTERNS \<Longrightarrow> set p \<subseteq> {CHR ''.'', CHR ''?''}"
  by (auto simp: WINNING_PATTERNS_def)

lemma replaced_pattern_chars:
  assumes "p \<in> set WINNING_PATTERNS" and "w \<noteq> m"
  shows "mark_value m \<notin> set (replace_qm p w)"
proof -
  have "set (replace_qm p w) \<subseteq> {CHR ''.'', mark_value w}"
    using winning_pattern_chars [OF assms(1)] by (auto simp: replace_qm_def)
  moreover have "mark_value m \<noteq> CHR ''.''" and "mark_value m \<noteq> mark_value w"
    using assms(2) by (cases m; cases w; simp)+
  ultimately show ?thesis by auto
qed

lemma winner_after_move:
  assumes "winner s = None" and "k < length (cells (grid s))"
    and "cells (grid s) ! k = CHR '' ''"
  shows "winner \<lparr>grid = \<lparr>cells = (cells (grid s))[k := mark_value m]\<rparr>, starting_mark = sm\<rparr>
           \<in> {None, Some m}"
proof -
  let ?cs = "cells (grid s)"
  let ?new = "?cs[k := mark_value m]"
  have none: "first_win WINNING_PATTERNS ?cs = None"
    using assms(1) by (simp add: winner_def)
  have nl: "?cs ! k \<noteq> newline"
    using assms(3) by (simp add: newline_def)
  show ?thesis
  proof (cases "first_win WINNING_PATTERNS ?new")
    case None
    then show ?thesis by (simp add: winner_def)
  next
    case (Some pw)
    obtain p w where pw: "pw = (p, w)" by (cases pw)
    from Some pw first_win_Some have p: "p \<in> set WINNING_PATTERNS"
      and match: "re_match (replace_qm p w) ?new"
      by blast+
    have "w = m"
    proof (rule ccontr)
      assume "w \<noteq> m"
      then have "mark_value m \<notin> set (replace_qm p w)"
        using p by (rule replaced_pattern_chars [rotated])
      with match have "re_match (replace_qm p w) ?cs"
        using assms(2) nl by (rule re_match_update)
      moreover have "w \<in> set all_marks"
        by (cases w) (simp_all add: all_marks_def)
      ultimately show False
        using none p by (simp add: first_win_None)
    qed
    with Some pw show ?thesis by (simp add: winner_def)
  qed
qed

lemma validate_after_move:
  assumes c: "constructed s" and w: "winner s = None"
    and k: "k < length (cells (grid s))" and e: "cells (grid s) ! k = CHR '' ''"
  shows "validate_game_state
           \<lparr>grid = \<lparr>cells = (cells (grid s))[k := mark_value (current_mark s)]\<rparr>,
            starting_mark = starting_mark s\<rparr> = Inr ()"
proof -
  let ?cs = "cells (grid s)"
  let ?g = "\<lparr>cells = ?cs[k := mark_value (current_mark s)]\<rparr>"
  let ?s' = "\<lparr>grid = ?g, starting_mark = starting_mark s\<rparr>"
  have g: "grid s = \<lparr>cells = ?cs\<rparr>" by simp
  note before = constructed_counts [OF c]
  note cnt = counts_after_move(1,2) [OF k e, of "current_mark s", folded g]
  have win: "winner ?s' \<in> {None, Some (current_mark s)}"
    using w k e by (rule winner_after_move)
  show ?thesis
  proof (cases "x_count (grid s) = o_count (grid s)")
    case True
    then have cm: "current_mark s = starting_mark s"
      by (simp add: current_mark_def)
    show ?thesis
      using True cm cnt win
      by (cases "starting_mark s")
        (auto simp: validate_game_state_def validate_number_of_marks_def
          validate_starting_mark_def validate_winner_def)
  next
    case False
    then have cm: "current_mark s = other (starting_mark s)"
      by (simp add: current_mark_def)
    show ?thesis
      using False cm cnt win before
      by (cases "starting_mark s")
        (auto simp: validate_game_state_def validate_number_of_marks_def
          validate_starting_mark_def validate_winner_def other_def)
  qed
qed

lemma make_move_to_succeeds:
  assumes c: "constructed s" and w: "winner s = None"
    and i0: "0 \<le> index" and i9: "index < int (length (cells (grid s)))"
    and i8: "nat index < 9"
    and e: "cells (grid s) ! nat index = CHR '' ''"
  shows "make_move_to s index =
           Inr \<lparr>mark = current_mark s, cell_index = index, before_state = s,
                after_state =
                  \<lparr>grid = \<lparr>cells = (cells (grid s))[nat index := mark_value (current_mark s)]\<rparr>,
                   starting_mark = starting_mark s\<rparr>\<rparr>"
proof -
  let ?cs = "cells (grid s)"
  let ?new = "?cs[nat index := mark_value (current_mark s)]"
  have k: "nat index < length ?cs"
    using i0 i9 by simp
  have ix: "py_index ?cs index = Inr (CHR '' '')"
    using i0 i9 e by (simp add: py_index_def)
  have sl: "slice_to ?cs index @ [mark_value (current_mark s)] @ slice_from ?cs (index + 1) = ?new"
    using i0 i9 by (rule slices_update)
  have "match_grid_re ?cs"
    using c by (simp add: constructed_def validate_grid_def split: if_splits)
  moreover have "grid_class (mark_value (current_mark s))"
    by (cases "current_mark s") (simp_all add: grid_class_def)
  ultimately have "match_grid_re ?new"
    using i8 by (simp add: match_grid_re_update)
  then have ng: "new_Grid ?new = Inr \<lparr>cells = ?new\<rparr>"
    by (simp add: new_Grid_def validate_grid_def)
  have "validate_game_state \<lparr>grid = \<lparr>cells = ?new\<rparr>, starting_mark = starting_mark s\<rparr> = Inr ()"
    using c w k e by (rule validate_after_move)
  then have ns: "new_GameState \<lparr>cells = ?new\<rparr> (starting_mark s) =
      Inr \<lparr>grid = \<lparr>cells = ?new\<rparr>, starting_mark = starting_mark s\<rparr>"
    by (simp add: new_GameState_def)
  show ?thesis
    using sl ng ns by (simp add: make_move_to_def ix)
qed

text \<open>
  C4, as stated: \<open>make_move_to\<close> succeeds on every empty cell. On a finished game
  the validators of the new state can refuse the move: after \<open>X\<close> has won with the
  top row, \<open>O\<close> cannot be placed.
\<close>

theorem make_move_to_finished_counterexample:
  "constructed \<lparr>grid = \<lparr>cells = ''XXXOO    ''\<rparr>, starting_mark = CROSS\<rparr>
   \<and> cells (grid \<lparr>grid = \<lparr>cells = ''XXXOO    ''\<rparr>, starting_mark = CROSS\<rparr>) ! 5 = CHR '' ''
   \<and> make_move_to \<lparr>grid = \<lparr>cells = ''XXXOO    ''\<rparr>, starting_mark = CROSS\<rparr> 5
       = Inl InvalidGameState"
  by code_simp

text \<open>
  C4, amended: for every \<open>GameState\<close> whose game is not over and every index
  \<open>0 \<le> index < 9\<close> whose cell is empty, \<open>make_move_to(index)\<close> succeeds; the move
  records the current mark, the index and the state it came from, and its
  \<open>after_state\<close> has the same \<open>starting_mark\<close> and the same cells but for the current
  mark at \<open>index\<close>.
\<close>

theorem make_move_to_frame:
  assumes "constructed s" and "\<not> game_over s"
    and "0 \<le> index" and "index < 9"
    and "cells (grid s) ! nat index = CHR '' ''"
  shows "\<exists>m. make_move_to s index = Inr m
           \<and> mark m = current_mark s \<and> cell_index m = index \<and> before_state m = s
           \<and> starting_mark (after_state m) = starting_mark s
           \<and> cells (grid (after_state m)) =
               (cells (grid s))[nat index := mark_value (current_mark s)]
           \<and> length (cells (grid (after_state m))) = length (cells (grid s))
           \<and> cells (grid (after_state m)) ! nat index = mark_value (current_mark s)
           \<and> (\<forall>j < length (cells (grid s)).
                 j \<noteq> nat index \<longrightarrow> cells (grid (after_state m)) ! j = cells (grid s) ! j)"
proof -
  from assms(2) have w: "winner s = None"
    by (simp add: game_over_def)
  from constructed_length [OF assms(1)] assms(4)
  have lt: "index < int (length (cells (grid s)))" by auto
  from assms(3,4) have i8: "nat index < 9" by simp
  from lt assms(3) have k: "nat index < length (cells (grid s))" by simp
  show ?thesis
    using make_move_to_succeeds [OF assms(1) w assms(3) lt i8 assms(5)] k by simp
qed

theorem make_move_to_frame_witness:
  "constructed \<lparr>grid = \<lparr>cells = ''XO       ''\<rparr>, starting_mark = CROSS\<rparr>
   \<and> \<not> game_over \<lparr>grid = \<lparr>cells = ''XO       ''\<rparr>, starting_mark = CROSS\<rparr>
   \<and> cells (grid \<lparr>grid = \<lparr>cells = ''XO       ''\<rparr>, starting_mark = CROSS\<rparr>) ! nat 4 = CHR '' ''
   \<and> (\<exists>m. make_move_to \<lparr>grid = \<lparr>cells = ''XO       ''\<rparr>, starting_mark = CROSS\<rparr> 4 = Inr m
          \<and> mark m = CROSS \<and> cell_index m = 4
          \<and> cells (grid (after_state m)) = ''XO  X    ''
          \<and> starting_mark (after_state m) = CROSS)"
proof -
  let ?s = "\<lparr>grid = \<lparr>cells = ''XO       ''\<rparr>, starting_mark = CROSS\<rparr>"
  have a: "constructed ?s" by code_simp
  have b: "\<not> game_over ?s" by code_simp
  have c: "cells (grid ?s) ! nat 4 = CHR '' ''" by code_simp
  have d: "current_mark ?s = CROSS" by code_simp
  have e: "(cells (grid ?s))[nat 4 := mark_value CROSS] = ''XO  X    ''" by code_simp
  from make_move_to_frame [OF a b _ _ c] obtain m where
    "make_move_to ?s 4 = Inr m" "mark m = current_mark ?s" "cell_index m = 4"
    "starting_mark (after_state m) = starting_mark ?s"
    "cells (grid (after_state m)) = (cells (grid ?s))[nat 4 := mark_value (current_mark ?s)]"
    by auto
  with a b c d e show ?thesis by auto
qed

section \<open>Winner\<close>

text \<open>
  Where no line feed is among the nine cells, the pattern matching of \<open>winner\<close> and
  \<open>winning_cells\<close> finds the first held line of the specification.
\<close>

lemma nine_cells:
  assumes "9 \<le> length cs"
  obtains c0 c1 c2 c3 c4 c5 c6 c7 c8 rest
  where "cs = c0 # c1 # c2 # c3 # c4 # c5 # c6 # c7 # c8 # rest"
proof -
  from assms have "cs = take 9 cs @ drop 9 cs" and "length (take 9 cs) = 9"
    by simp_all
  then obtain c0 c1 c2 c3 c4 c5 c6 c7 c8 where "take 9 cs = [c0, c1, c2, c3, c4, c5, c6, c7, c8]"
    by (auto simp: length_Suc_conv numeral_eq_Suc simp del: length_take)
  with \<open>cs = take 9 cs @ drop 9 cs\<close> have "cs = c0 # c1 # c2 # c3 # c4 # c5 # c6 # c7 # c8 # drop 9 cs"
    by simp
  then show thesis by (rule that)
qed

lemma first_mark_line_mark:
  assumes "\<And>m. re_match (replace_qm p m) cs = line_held cs l m"
  shows "first_mark p ms cs = line_mark l ms cs"
  by (induction ms) (simp_all add: assms)

lemma first_win_first_line:
  assumes "list_all2 (\<lambda>p l. (\<forall>m. re_match (replace_qm p m) cs = line_held cs l m)
              \<and> finditer_starts (\<lambda>c. c = CHR ''?'') p = map int l) ps ls"
  shows "map_option (\<lambda>(p, m). (finditer_starts (\<lambda>c. c = CHR ''?'') p, m)) (first_win ps cs)
         = map_option (\<lambda>(l, m). (map int l, m)) (first_line ls cs)"
  using assms
proof (induction ps ls rule: list_all2_induct)
  case Nil
  then show ?case by simp
next
  case (Cons p ps l ls)
  from Cons.hyps(1) have "first_mark p all_marks cs = line_mark l [CROSS, NAUGHT] cs"
    unfolding all_marks_def by (intro first_mark_line_mark) blast
  moreover from Cons.hyps(1) have "finditer_starts (\<lambda>c. c = CHR ''?'') p = map int l"
    by blast
  ultimately show ?case
    using Cons.IH by (cases "line_mark l [CROSS, NAUGHT] cs") simp_all
qed

lemma patterns_are_lines:
  "list_all2 (\<lambda>p l. finditer_starts (\<lambda>c. c = CHR ''?'') p = map int l)
     WINNING_PATTERNS WINNING_LINES"
  by code_simp

lemma patterns_match_lines:
  assumes "9 \<le> length cs" and "newline \<notin> set (take 9 cs)"
  shows "list_all2 (\<lambda>p l. (\<forall>m. re_match (replace_qm p m) cs = line_held cs l m)
              \<and> finditer_starts (\<lambda>c. c = CHR ''?'') p = map int l)
           WINNING_PATTERNS WINNING_LINES"
proof -
  from assms(1) obtain c0 c1 c2 c3 c4 c5 c6 c7 c8 rest
    where cs: "cs = c0 # c1 # c2 # c3 # c4 # c5 # c6 # c7 # c8 # rest"
    by (rule nine_cells)
  with assms(2) have nl: "c0 \<noteq> newline" "c1 \<noteq> newline" "c2 \<noteq> newline" "c3 \<noteq> newline"
    "c4 \<noteq> newline" "c5 \<noteq> newline" "c6 \<noteq> newline" "c7 \<noteq> newline" "c8 \<noteq> newline"
    by auto
  have qm: "mark_value m \<noteq> CHR ''.''" "(CHR ''.'' = mark_value m) = False" for m
    by (cases m; simp)+
  have "list_all2 (\<lambda>p l. \<forall>m. re_match (replace_qm p m) cs = line_held cs l m)
           WINNING_PATTERNS WINNING_LINES"
    unfolding WINNING_PATTERNS_def WINNING_LINES_def cs
    by (simp add: replace_qm_def line_held_def nl qm)
  with patterns_are_lines show ?thesis
    by (simp add: list_all2_conv_all_nth)
qed

lemma winner_refines_lines:
  assumes "9 \<le> length (cells (grid s))" and "newline \<notin> set (take 9 (cells (grid s)))"
  shows "winner s = spec_winner (cells (grid s))"
    and "winning_cells s = spec_winning_cells (cells (grid s))"
proof -
  let ?cs = "cells (grid s)"
  note eq = first_win_first_line [OF patterns_match_lines [OF assms]]
  show "winner s = spec_winner ?cs"
    using eq unfolding winner_def spec_winner_def
    by (cases "first_win WINNING_PATTERNS ?cs"; cases "first_line WINNING_LINES ?cs") auto
  show "winning_cells s = spec_winning_cells ?cs"
    using eq unfolding winning_cells_def spec_winning_cells_def
    by (cases "first_win WINNING_PATTERNS ?cs"; cases "first_line WINNING_LINES ?cs") auto
qed

text \<open>
  C1, as stated: the first matching pattern determines \<open>winner\<close> and \<open>winning_cells\<close>
  for every \<open>GameState\<close>, and in particular the \<open>GameState\<close> with cells
  \<open>"XXX      "\<close> and starting mark \<open>CROSS\<close> has the winner \<open>CROSS\<close>. There is no such
  \<open>GameState\<close>: the grid is accepted, but with three \<open>X\<close> and no \<open>O\<close> the constructor
  of the state raises \<open>InvalidGameState\<close>.
\<close>

theorem first_row_scenario_counterexample:
  "new_Grid ''XXX      '' = Inr \<lparr>cells = ''XXX      ''\<rparr>
   \<and> new_GameState \<lparr>cells = ''XXX      ''\<rparr> CROSS = Inl InvalidGameState
   \<and> \<not> constructed \<lparr>grid = \<lparr>cells = ''XXX      ''\<rparr>, starting_mark = CROSS\<rparr>"
  by code_simp

text \<open>
  C1, amended: for every \<open>GameState\<close> whose cells are nine symbols \<open>X\<close>, \<open>O\<close> or
  space, \<open>winner\<close> and \<open>winning_cells\<close> come from testing the eight winning patterns
  in declaration order (three rows, three columns, two diagonals) and for each
  pattern the marks in the order \<open>CROSS\<close>, \<open>NAUGHT\<close>: the first pair of a pattern and
  a mark whose three pinned positions all hold the mark determines \<open>winner\<close>, and
  \<open>winning_cells\<close> is the three positions of that pattern, the empty list if there is
  no winner. In particular the \<open>GameState\<close> with cells \<open>"XXXOO    "\<close> and starting
  mark \<open>CROSS\<close> is constructed, its \<open>winner\<close> is \<open>CROSS\<close>, its \<open>winning_cells\<close> are
  \<open>[0, 1, 2]\<close> and \<open>game_over\<close> holds.
\<close>

theorem winner_first_held_line:
  assumes "proper_cells (cells (grid s))"
  shows "winner s = spec_winner (cells (grid s))
       \<and> winning_cells s = spec_winning_cells (cells (grid s))
       \<and> constructed \<lparr>grid = \<lparr>cells = ''XXXOO    ''\<rparr>, starting_mark = CROSS\<rparr>
       \<and> winner \<lparr>grid = \<lparr>cells = ''XXXOO    ''\<rparr>, starting_mark = CROSS\<rparr> = Some CROSS
       \<and> winning_cells \<lparr>grid = \<lparr>cells = ''XXXOO    ''\<rparr>, starting_mark = CROSS\<rparr> = [0, 1, 2]
       \<and> game_over \<lparr>grid = \<lparr>cells = ''XXXOO    ''\<rparr>, starting_mark = CROSS\<rparr>"
proof -
  let ?cs = "cells (grid s)"
  from assms have "length ?cs = 9"
    by (simp add: proper_cells_def)
  then have len: "9 \<le> length ?cs"
    by simp
  from assms have sym: "\<forall>c \<in> set ?cs. c = CHR ''X'' \<or> c = CHR ''O'' \<or> c = CHR '' ''"
    by (simp add: proper_cells_def list_all_iff)
  have nl: "newline \<notin> set (take 9 ?cs)"
  proof
    assume "newline \<in> set (take 9 ?cs)"
    then have "newline \<in> set ?cs" by (rule in_set_takeD)
    with sym have "newline = CHR ''X'' \<or> newline = CHR ''O'' \<or> newline = CHR '' ''"
      by blast
    then show False by (simp add: newline_def)
  qed
  have a: "winner s = spec_winner ?cs"
    using len nl by (rule winner_refines_lines(1))
  have b: "winning_cells s = spec_winning_cells ?cs"
    using len nl by (rule winner_refines_lines(2))
  have c: "constructed \<lparr>grid = \<lparr>cells = ''XXXOO    ''\<rparr>, starting_mark = CROSS\<rparr>"
    by code_simp
  have d: "winner \<lparr>grid = \<lparr>cells = ''XXXOO    ''\<rparr>, starting_mark = CROSS\<rparr> = Some CROSS"
    by code_simp
  have e: "winning_cells \<lparr>grid = \<lparr>cells = ''XXXOO    ''\<rparr>, starting_mark = CROSS\<rparr> = [0, 1, 2]"
    by code_simp
  have f: "game_over \<lparr>grid = \<lparr>cells = ''XXXOO    ''\<rparr>, starting_mark = CROSS\<rparr>"
    by code_simp
  show ?thesis
    by (intro conjI) (rule a b c d e f)+
qed

theorem winner_first_held_line_witness:
  "proper_cells (cells (grid \<lparr>grid = \<lparr>cells = ''XO XO X  ''\<rparr>, starting_mark = CROSS\<rparr>))
   \<and> constructed \<lparr>grid = \<lparr>cells = ''XO XO X  ''\<rparr>, starting_mark = CROSS\<rparr>
   \<and> spec_winner ''XO XO X  '' = Some CROSS
   \<and> spec_winning_cells ''XO XO X  '' = [0, 3, 6]
   \<and> winner \<lparr>grid = \<lparr>cells = ''XO XO X  ''\<rparr>, starting_mark = CROSS\<rparr> = Some CROSS
   \<and> winning_cells \<lparr>grid = \<lparr>cells = ''XO XO X  ''\<rparr>, starting_mark = CROSS\<rparr> = [0, 3, 6]"
proof -
  let ?s = "\<lparr>grid = \<lparr>cells = ''XO XO X  ''\<rparr>, starting_mark = CROSS\<rparr>"
  have p: "proper_cells (cells (grid ?s))" by code_simp
  have c: "constructed ?s" by code_simp
  have w: "spec_winner ''XO XO X  '' = Some CROSS" by code_simp
  have l: "spec_winning_cells ''XO XO X  '' = [0, 3, 6]" by code_simp
  from winner_first_held_line [OF p] have "winner ?s = spec_winner (cells (grid ?s))"
    and "winning_cells ?s = spec_winning_cells (cells (grid ?s))"
    by blast+
  with p c w l show ?thesis by simp
qed

text \<open>
  The constructors also accept a line feed as a cell, against the documentation of
  \<open>validate_grid\<close>, and \<open>.\<close> in a pattern does not match it: with \<open>X\<close> on the whole
  top row and a line feed in cell 3 the pattern matching finds no winner.
\<close>

lemma winner_blind_after_line_feed:
  "constructed \<lparr>grid = \<lparr>cells = ''XXX'' @ [CHR 0x0A] @ ''OO   ''\<rparr>, starting_mark = CROSS\<rparr>
   \<and> line_held (''XXX'' @ [CHR 0x0A] @ ''OO   '') [0, 1, 2] CROSS
   \<and> spec_winner (''XXX'' @ [CHR 0x0A] @ ''OO   '') = Some CROSS
   \<and> winner \<lparr>grid = \<lparr>cells = ''XXX'' @ [CHR 0x0A] @ ''OO   ''\<rparr>, starting_mark = CROSS\<rparr> = None
   \<and> winning_cells \<lparr>grid = \<lparr>cells = ''XXX'' @ [CHR 0x0A] @ ''OO   ''\<rparr>, starting_mark = CROSS\<rparr> = []"
  by code_simp

section \<open>Possible moves\<close>

text \<open>
  On a constructed state whose cells are those of the data model, \<open>possible_moves\<close>
  is empty when the game is over, and otherwise holds the move of \<open>make_move_to\<close> for
  each empty cell, in ascending order of the index.
\<close>

lemma moves_at_all:
  assumes "\<And>i. i \<in> set is \<Longrightarrow> make_move_to s i = Inr (f i)"
  shows "moves_at s is = Inr (map f is)"
  using assms by (induction "is") simp_all

lemma possible_moves_proper:
  assumes c: "constructed s" and p: "proper_cells (cells (grid s))"
  shows "possible_moves s =
           Inr (if game_over s then []
                else map (\<lambda>i. \<lparr>mark = current_mark s, cell_index = i, before_state = s,
                               after_state =
                                 \<lparr>grid = \<lparr>cells = (cells (grid s))[nat i := mark_value (current_mark s)]\<rparr>,
                                  starting_mark = starting_mark s\<rparr>\<rparr>)
                       (map int (filter (\<lambda>i. cells (grid s) ! i = CHR '' '') [0 ..< 9])))"
    and "\<not> game_over s \<Longrightarrow> possible_moves s = Inr ms \<Longrightarrow> m \<in> set ms \<Longrightarrow>
           make_move_to s (cell_index m) = Inr m"
proof -
  let ?cs = "cells (grid s)"
  let ?f = "\<lambda>i. \<lparr>mark = current_mark s, cell_index = i, before_state = s,
                  after_state =
                    \<lparr>grid = \<lparr>cells = ?cs[nat i := mark_value (current_mark s)]\<rparr>,
                     starting_mark = starting_mark s\<rparr>\<rparr>"
  from p have len: "length ?cs = 9"
    and sym: "\<forall>c \<in> set ?cs. c = CHR ''X'' \<or> c = CHR ''O'' \<or> c = CHR '' ''"
    by (simp_all add: proper_cells_def list_all_iff)
  have sp: "is_space (?cs ! i) \<longleftrightarrow> ?cs ! i = CHR '' ''" if "i < 9" for i
  proof -
    from that len have "?cs ! i \<in> set ?cs" by simp
    with sym have "?cs ! i = CHR ''X'' \<or> ?cs ! i = CHR ''O'' \<or> ?cs ! i = CHR '' ''"
      by blast
    then show ?thesis by (auto simp: is_space_def)
  qed
  have starts: "finditer_starts is_space ?cs
      = map int (filter (\<lambda>i. ?cs ! i = CHR '' '') [0 ..< 9])"
    unfolding finditer_starts_def len
    by (rule arg_cong [where f = "map int"], rule filter_cong) (simp_all add: sp)
  have each: "make_move_to s i = Inr (?f i)"
    if "\<not> game_over s" and "i \<in> set (finditer_starts is_space ?cs)" for i
  proof -
    from that(2) starts have i: "0 \<le> i" "i < 9" "?cs ! nat i = CHR '' ''"
      by auto
    from that(1) have "winner s = None"
      by (simp add: game_over_def)
    then show ?thesis
      using c i len by (intro make_move_to_succeeds) simp_all
  qed
  show 1: "possible_moves s =
           Inr (if game_over s then []
                else map ?f (map int (filter (\<lambda>i. ?cs ! i = CHR '' '') [0 ..< 9])))"
  proof (cases "game_over s")
    case True
    then show ?thesis by (simp add: possible_moves_def)
  next
    case False
    then have "moves_at s (finditer_starts is_space ?cs)
        = Inr (map ?f (finditer_starts is_space ?cs))"
      by (intro moves_at_all each)
    with False starts show ?thesis by (simp add: possible_moves_def)
  qed
  show "make_move_to s (cell_index m) = Inr m"
    if "\<not> game_over s" and "possible_moves s = Inr ms" and "m \<in> set ms"
  proof -
    from that 1 obtain i where "i \<in> set (finditer_starts is_space ?cs)" and "m = ?f i"
      unfolding starts by auto
    with each [OF that(1)] show ?thesis by simp
  qed
qed

text \<open>
  C2: \<open>possible_moves\<close> is to hold one move per empty cell whenever the game is not
  over, for every \<open>GameState\<close>. The loop visits every whitespace cell, and
  \<open>make_move_to\<close> refuses a cell that is not the space: with a tab in cell 0, which
  the constructors accept, and the game not over (no winner, no tie),
  \<open>possible_moves\<close> raises \<open>InvalidMove\<close>.
\<close>

theorem possible_moves_raises_on_tab:
  "constructed \<lparr>grid = \<lparr>cells = CHR 0x09 # ''        ''\<rparr>, starting_mark = CROSS\<rparr>
   \<and> winner \<lparr>grid = \<lparr>cells = CHR 0x09 # ''        ''\<rparr>, starting_mark = CROSS\<rparr> = None
   \<and> \<not> tie \<lparr>grid = \<lparr>cells = CHR 0x09 # ''        ''\<rparr>, starting_mark = CROSS\<rparr>
   \<and> possible_moves \<lparr>grid = \<lparr>cells = CHR 0x09 # ''        ''\<rparr>, starting_mark = CROSS\<rparr>
       = Inl InvalidMove"
  by code_simp

section \<open>Every move fills an empty cell\<close>

text \<open>
  A move of \<open>possible_moves\<close> comes from \<open>make_move_to\<close> at an index that is not
  negative, and its \<open>after_state\<close> has one empty cell less. This is what makes the
  search below terminate.
\<close>

lemma make_move_to_Inr_nonneg:
  assumes "make_move_to s index = Inr m" and "0 \<le> index"
  shows "nat index < length (cells (grid s))"
    and "cells (grid s) ! nat index = CHR '' ''"
    and "m = \<lparr>mark = current_mark s, cell_index = index, before_state = s,
              after_state =
                \<lparr>grid = \<lparr>cells = (cells (grid s))[nat index := mark_value (current_mark s)]\<rparr>,
                 starting_mark = starting_mark s\<rparr>\<rparr>"
proof -
  let ?cs = "cells (grid s)"
  let ?new = "slice_to ?cs index @ [mark_value (current_mark s)] @ slice_from ?cs (index + 1)"
  from assms(1) obtain ch where ix: "py_index ?cs index = Inr ch"
    by (auto simp: make_move_to_def split: sum.splits)
  with assms(1) have ch: "ch = CHR '' ''"
    by (auto simp: make_move_to_def split: sum.splits if_splits)
  from ix assms(2) have lt: "index < int (length ?cs)"
    by (auto simp: py_index_def split: if_splits)
  with assms(2) show "nat index < length ?cs" by simp
  from ix ch assms(2) lt show "?cs ! nat index = CHR '' ''"
    by (simp add: py_index_def)
  have new: "?new = ?cs[nat index := mark_value (current_mark s)]"
    using assms(2) lt by (rule slices_update)
  from assms(1) ix ch obtain g where g: "new_Grid ?new = Inr g"
    by (auto simp: make_move_to_def split: sum.splits)
  from assms(1) ix ch g obtain s' where s': "new_GameState g (starting_mark s) = Inr s'"
    by (auto simp: make_move_to_def split: sum.splits)
  from assms(1) ix ch g s' have "m = \<lparr>mark = current_mark s, cell_index = index,
      before_state = s, after_state = s'\<rparr>"
    by (simp add: make_move_to_def)
  with new_Grid_Inr [OF g] new_GameState_Inr [OF s'] new
  show "m = \<lparr>mark = current_mark s, cell_index = index, before_state = s,
              after_state =
                \<lparr>grid = \<lparr>cells = ?cs[nat index := mark_value (current_mark s)]\<rparr>,
                 starting_mark = starting_mark s\<rparr>\<rparr>"
    by simp
qed

lemma moves_at_member:
  assumes "moves_at s is = Inr ms" and "m \<in> set ms"
  shows "\<exists>i \<in> set is. make_move_to s i = Inr m"
  using assms
proof (induction "is" arbitrary: ms)
  case Nil
  then show ?case by simp
next
  case (Cons i "is")
  then show ?case
    by (auto split: sum.splits)
qed

lemma possible_moves_member:
  assumes "possible_moves s = Inr ms" and "m \<in> set ms"
  shows "\<exists>i. 0 \<le> i \<and> make_move_to s i = Inr m"
proof -
  from assms have ng: "\<not> game_over s"
    by (auto simp: possible_moves_def split: if_splits)
  with assms(1) have "moves_at s (finditer_starts is_space (cells (grid s))) = Inr ms"
    by (simp add: possible_moves_def)
  from moves_at_member [OF this assms(2)] obtain i
    where "i \<in> set (finditer_starts is_space (cells (grid s)))" and "make_move_to s i = Inr m"
    by blast
  moreover from this(1) have "0 \<le> i"
    by (auto simp: finditer_starts_def)
  ultimately show ?thesis by blast
qed

lemma possible_moves_fewer_empty:
  assumes "possible_moves s = Inr ms" and "m \<in> set ms"
  shows "count_list (cells (grid (after_state m))) (CHR '' '')
         < count_list (cells (grid s)) (CHR '' '')"
proof -
  from possible_moves_member [OF assms] obtain i where i: "0 \<le> i"
    and mv: "make_move_to s i = Inr m"
    by blast
  note f = make_move_to_Inr_nonneg [OF mv i]
  have "mark_value (current_mark s) \<noteq> CHR '' ''"
    by (cases "current_mark s") simp_all
  with count_list_update [OF f(1), of "mark_value (current_mark s)" "CHR '' ''"] f(2)
  have "int (count_list ((cells (grid s))[nat i := mark_value (current_mark s)]) (CHR '' ''))
      = int (count_list (cells (grid s)) (CHR '' '')) - 1"
    by simp
  with f(3) show ?thesis by simp
qed

section \<open>Minimax search\<close>

text \<open>
  The values of a generator expression, in order: the first exception ends the
  evaluation.
\<close>

fun sequence :: "(error + 'a) list \<Rightarrow> error + 'a list" where
  "sequence [] = Inr []"
| "sequence (x # xs) =
     (case x of
        Inl e \<Rightarrow> Inl e
      | Inr v \<Rightarrow> (case sequence xs of Inl e \<Rightarrow> Inl e | Inr vs \<Rightarrow> Inr (v # vs)))"

text \<open>
  \<open>max(scores)\<close> if \<open>choose_highest_score\<close>, and \<open>min(scores)\<close> otherwise; on no score at
  all both raise \<open>ValueError\<close>.
\<close>

fun aggregate :: "bool \<Rightarrow> int list \<Rightarrow> error + int" where
  "aggregate choose_highest_score [] = Inl ValueError"
| "aggregate choose_highest_score (v # vs) =
     Inr (if choose_highest_score then fold max vs v else fold min vs v)"

text \<open>
  Modelled from the spec: \<open>minimax\<close> of \<open>tic_tac_toe.logic.minimax\<close>, a module that
  \<open>tic_tac_toe.game.players\<close> imports and that is not among the sources. The
  specification gives it the state, the two flags \<open>maximizing\<close> and
  \<open>choose_highest_score\<close>, and a mark that is fixed for the whole search, the mark
  under optimization. On a finished game it returns \<open>evaluate_score\<close> for that mark;
  otherwise it recurses on the \<open>after_state\<close> of each possible move with \<open>maximizing\<close>
  flipped, and aggregates with \<open>max\<close> if \<open>choose_highest_score\<close> and with \<open>min\<close>
  otherwise. \<open>choose_highest_score\<close> says that it is the turn of the mark under
  optimization, so it is flipped with every move as well.
\<close>

function minimax :: "Mark \<Rightarrow> GameState \<Rightarrow> bool \<Rightarrow> bool \<Rightarrow> error + int" where
  "minimax mark_under_optimization state maximizing choose_highest_score =
     (if game_over state then evaluate_score state mark_under_optimization
      else
        (case possible_moves state of
           Inl e \<Rightarrow> Inl e
         | Inr moves \<Rightarrow>
             (case sequence
                     (map (\<lambda>move. minimax mark_under_optimization (after_state move)
                                     (\<not> maximizing) (\<not> choose_highest_score))
                        moves) of
                Inl e \<Rightarrow> Inl e
              | Inr scores \<Rightarrow> aggregate choose_highest_score scores)))"
  by pat_completeness auto
termination
proof (relation "measure (\<lambda>(mk, s, mz, chs). count_list (cells (grid s)) (CHR '' ''))")
  show "wf (measure (\<lambda>(mk, s, mz, chs). count_list (cells (grid s)) (CHR '' '')))"
    by simp
next
  fix mark_under_optimization :: Mark and state :: GameState
    and maximizing choose_highest_score :: bool and moves :: "Move list" and move :: Move
  assume "possible_moves state = Inr moves" and "move \<in> set moves"
  then have "count_list (cells (grid (after_state move))) (CHR '' '')
      < count_list (cells (grid state)) (CHR '' '')"
    by (rule possible_moves_fewer_empty)
  then show "((mark_under_optimization, after_state move, \<not> maximizing, \<not> choose_highest_score),
      mark_under_optimization, state, maximizing, choose_highest_score)
    \<in> measure (\<lambda>(mk, s, mz, chs). count_list (cells (grid s)) (CHR '' ''))"
    by simp
qed

declare minimax.simps [simp del]

text \<open>
  The first element with the highest score: a later element replaces the best one
  only when its score is strictly higher.
\<close>

fun first_max :: "int \<times> 'a \<Rightarrow> (int \<times> 'a) list \<Rightarrow> 'a" where
  "first_max best [] = snd best"
| "first_max best (x # xs) = first_max (if fst best < fst x then x else best) xs"

text \<open>
  Modelled from the spec: \<open>find_best_move\<close> of \<open>tic_tac_toe.logic.minimax\<close>, the entry
  of the search, which is not among the sources. The mark under optimization is the
  mark of the player to move, \<open>current_mark\<close>. Each possible move is scored by
  \<open>minimax\<close> on its \<open>after_state\<close>, where \<open>maximizing\<close> is false and the turn is the
  opponent's, so \<open>choose_highest_score\<close> is false; the move with the highest score is
  returned, the first one among equals, in the order of \<open>possible_moves\<close>.
\<close>

definition find_best_move :: "GameState \<Rightarrow> error + Move" where
  "find_best_move game_state =
     (case possible_moves game_state of
        Inl e \<Rightarrow> Inl e
      | Inr moves \<Rightarrow>
          (case sequence
                  (map (\<lambda>move. minimax (current_mark game_state) (after_state move) False False)
                     moves) of
             Inl e \<Rightarrow> Inl e
           | Inr scores \<Rightarrow>
               (case zip scores moves of
                  [] \<Rightarrow> Inl ValueError
                | x # xs \<Rightarrow> Inr (first_max x xs))))"

section \<open>Players and the engine\<close>

text \<open>
  The computer players of \<open>tic_tac_toe.game.players\<close>; a player holds its mark. The
  delay before a move and the renderer do not change the game and are left out.
\<close>

datatype Player = RandomComputerPlayer Mark | MinimaxComputerPlayer Mark

fun player_mark :: "Player \<Rightarrow> Mark" where
  "player_mark (RandomComputerPlayer m) = m"
| "player_mark (MinimaxComputerPlayer m) = m"

text \<open>
  \<open>make_random_move\<close>: \<open>random.choice(self.possible_moves)\<close>, and \<open>None\<close> on
  \<open>IndexError\<close>, which \<open>random.choice\<close> raises on the empty list. The draw is the
  parameter \<open>r\<close>: the choice is the move at index \<open>r mod len(moves)\<close>, so every move
  can be chosen.
\<close>

definition make_random_move :: "GameState \<Rightarrow> nat \<Rightarrow> error + Move option" where
  "make_random_move s r =
     (case possible_moves s of
        Inl IndexError \<Rightarrow> Inr None
      | Inl e \<Rightarrow> Inl e
      | Inr moves \<Rightarrow>
          if moves = [] then Inr None else Inr (Some (moves ! (r mod length moves))))"

text \<open>
  \<open>get_move\<close> of a computer player is \<open>get_computer_move\<close> after the delay: the random
  player makes a random move, the minimax player makes a random move when the game
  has not started and returns \<open>find_best_move\<close> otherwise.
\<close>

fun get_move :: "Player \<Rightarrow> GameState \<Rightarrow> nat \<Rightarrow> error + Move option" where
  "get_move (RandomComputerPlayer m) s r = make_random_move s r"
| "get_move (MinimaxComputerPlayer m) s r =
     (if game_not_started s then make_random_move s r
      else (case find_best_move s of Inl e \<Rightarrow> Inl e | Inr move \<Rightarrow> Inr (Some move)))"

text \<open>\<open>Player.make_move\<close>.\<close>

definition make_move :: "Player \<Rightarrow> GameState \<Rightarrow> nat \<Rightarrow> error + GameState" where
  "make_move p s r =
     (if player_mark p = current_mark s then
        (case get_move p s r of
           Inl e \<Rightarrow> Inl e
         | Inr (Some move) \<Rightarrow> Inr (after_state move)
         | Inr None \<Rightarrow> Inl InvalidMove)
      else Inl InvalidMove)"

text \<open>\<open>validate_players\<close> of \<open>tic_tac_toe.logic.validators\<close>, run when a \<open>TicTacToe\<close> is made.\<close>

definition validate_players :: "Player \<Rightarrow> Player \<Rightarrow> error + unit" where
  "validate_players player1 player2 =
     (if player_mark player1 = player_mark player2 then Inl ValueError else Inr ())"

text \<open>\<open>TicTacToe.get_current_player\<close>.\<close>

definition get_current_player :: "Player \<Rightarrow> Player \<Rightarrow> GameState \<Rightarrow> Player" where
  "get_current_player player1 player2 s =
     (if current_mark s = player_mark player1 then player1 else player2)"

text \<open>
  The loop of \<open>TicTacToe.play\<close>. It ends when the game is over; an \<open>InvalidMove\<close> of
  the player is caught and the loop goes on with the same state, every other
  exception leaves the loop. The loop can run forever, so it is given fuel: \<open>None\<close> is
  the loop that has not ended when the fuel is used up. \<open>rnd t\<close> is the random draw of
  round \<open>t\<close>. The result is the last state, the one the renderer shows last.
\<close>

fun play_loop ::
  "nat \<Rightarrow> Player \<Rightarrow> Player \<Rightarrow> (nat \<Rightarrow> nat) \<Rightarrow> nat \<Rightarrow> GameState \<Rightarrow> (error + GameState) option" where
  "play_loop 0 player1 player2 rnd t s = None"
| "play_loop (Suc fuel) player1 player2 rnd t s =
     (if game_over s then Some (Inr s)
      else
        (case make_move (get_current_player player1 player2 s) s (rnd t) of
           Inl InvalidMove \<Rightarrow> play_loop fuel player1 player2 rnd (Suc t) s
         | Inl e \<Rightarrow> Some (Inl e)
         | Inr s' \<Rightarrow> play_loop fuel player1 player2 rnd (Suc t) s'))"

text \<open>\<open>TicTacToe.play(starting_mark)\<close>: the loop from \<open>GameState(Grid(), starting_mark)\<close>.\<close>

definition play ::
  "nat \<Rightarrow> Player \<Rightarrow> Player \<Rightarrow> (nat \<Rightarrow> nat) \<Rightarrow> Mark \<Rightarrow> (error + GameState) option" where
  "play fuel player1 player2 rnd starting =
     (case new_Grid (replicate 9 (CHR '' '')) of
        Inl e \<Rightarrow> Some (Inl e)
      | Inr g \<Rightarrow>
          (case new_GameState g starting of
             Inl e \<Rightarrow> Some (Inl e)
           | Inr s \<Rightarrow> play_loop fuel player1 player2 rnd 0 s))"

section \<open>A bounded search on boards\<close>

text \<open>
  The proof that the minimax player ties against itself evaluates a search of its
  own, on a board of nine cells that are empty or hold a mark. \<open>state_of\<close> is the
  \<open>GameState\<close> of a board. With \<open>m\<close> the mark to move, \<open>won (other m)\<close> and \<open>full\<close> say
  that the game is over and \<open>succs m\<close> lists the boards after each possible move, in
  the order of \<open>possible_moves\<close>.
\<close>

type_synonym board = "Mark option list"

fun cell_value :: "Mark option \<Rightarrow> char" where
  "cell_value None = CHR '' ''"
| "cell_value (Some m) = mark_value m"

definition state_of :: "Mark \<Rightarrow> board \<Rightarrow> GameState" where
  "state_of sm b = \<lparr>grid = \<lparr>cells = map cell_value b\<rparr>, starting_mark = sm\<rparr>"

definition won :: "Mark \<Rightarrow> board \<Rightarrow> bool" where
  "won m bd =
     (case bd of
        [a, b, c, d, e, f, g, h, i] \<Rightarrow>
          (let p = Some m in
             (a = p \<and> b = p \<and> c = p) \<or> (d = p \<and> e = p \<and> f = p) \<or> (g = p \<and> h = p \<and> i = p)
           \<or> (a = p \<and> d = p \<and> g = p) \<or> (b = p \<and> e = p \<and> h = p) \<or> (c = p \<and> f = p \<and> i = p)
           \<or> (a = p \<and> e = p \<and> i = p) \<or> (c = p \<and> e = p \<and> g = p))
      | _ \<Rightarrow> False)"

fun full :: "board \<Rightarrow> bool" where
  "full [] = True"
| "full (c # cs) = (if c = None then False else full cs)"

fun succs :: "Mark \<Rightarrow> board \<Rightarrow> board list" where
  "succs m [] = []"
| "succs m (c # cs) = (if c = None then [Some m # cs] else []) @ map ((#) c) (succs m cs)"

text \<open>
  \<open>le_chk n mk m bound b\<close> searches for a proof that the \<open>minimax\<close> score of board
  \<open>b\<close> for the mark \<open>mk\<close>, with \<open>m\<close> to move, is at most \<open>bound\<close>: every move of
  \<open>mk\<close> must have such a score, and one move of the opponent. \<open>ge_chk\<close> is the same
  for a lower bound. Both stop at the first move that decides. \<open>n\<close> bounds the depth.
\<close>

fun all_lazy :: "('a \<Rightarrow> bool) \<Rightarrow> 'a list \<Rightarrow> bool" where
  "all_lazy P [] = True"
| "all_lazy P (x # xs) = (if P x then all_lazy P xs else False)"

fun any_lazy :: "('a \<Rightarrow> bool) \<Rightarrow> 'a list \<Rightarrow> bool" where
  "any_lazy P [] = False"
| "any_lazy P (x # xs) = (if P x then True else any_lazy P xs)"

fun le_chk :: "nat \<Rightarrow> Mark \<Rightarrow> Mark \<Rightarrow> int \<Rightarrow> board \<Rightarrow> bool" where
  "le_chk 0 mk m bound b = False"
| "le_chk (Suc n) mk m bound b =
     (if won (other m) b then (if other m = mk then 1 else - 1) \<le> bound
      else if full b then 0 \<le> bound
      else if m = mk then all_lazy (le_chk n mk (other m) bound) (succs m b)
      else any_lazy (le_chk n mk (other m) bound) (succs m b))"

fun ge_chk :: "nat \<Rightarrow> Mark \<Rightarrow> Mark \<Rightarrow> int \<Rightarrow> board \<Rightarrow> bool" where
  "ge_chk 0 mk m bound b = False"
| "ge_chk (Suc n) mk m bound b =
     (if won (other m) b then bound \<le> (if other m = mk then 1 else - 1)
      else if full b then bound \<le> 0
      else if m = mk then any_lazy (ge_chk n mk (other m) bound) (succs m b)
      else all_lazy (ge_chk n mk (other m) bound) (succs m b))"

text \<open>
  \<open>pick m bs\<close> is the move \<open>find_best_move\<close> makes for \<open>m\<close> among the boards \<open>bs\<close>, when
  it can be found from bounds: the first board whose score is not below 0, when
  the boards before it score at most -1 and no board from it on scores above 0.
  \<open>play_chk n m b\<close> follows these moves from \<open>b\<close> and holds when the game ends in a
  tie.
\<close>

fun pick :: "Mark \<Rightarrow> board list \<Rightarrow> board option" where
  "pick m [] = None"
| "pick m (b # bs) =
     (if le_chk 9 m (other m) (- 1) b then pick m bs
      else if ge_chk 9 m (other m) 0 b then
        (if all_lazy (le_chk 9 m (other m) 0) (b # bs) then Some b else None)
      else None)"

fun play_chk :: "nat \<Rightarrow> Mark \<Rightarrow> board \<Rightarrow> bool" where
  "play_chk 0 m b = False"
| "play_chk (Suc n) m b =
     (if won (other m) b then False
      else if full b then True
      else (case pick m (succs m b) of
              None \<Rightarrow> False
            | Some b' \<Rightarrow> play_chk n (other m) b'))"

text \<open>A board of a constructed state, with the mark whose turn it is.\<close>

definition position :: "Mark \<Rightarrow> board \<Rightarrow> Mark \<Rightarrow> bool" where
  "position sm b m =
     (length b = 9 \<and> constructed (state_of sm b) \<and> current_mark (state_of sm b) = m)"

section \<open>The search on boards is sound\<close>

lemma winner_is_last_mover:
  assumes "constructed s" and "winner s = Some w"
  shows "w = other (current_mark s)"
proof -
  from assms(1) have "validate_winner (grid s) (starting_mark s) (winner s) = Inr ()"
    by (auto simp: constructed_def validate_game_state_def split: sum.splits)
  with assms(2) show ?thesis
    by (cases w; cases "starting_mark s")
      (auto simp: validate_winner_def current_mark_def other_def split: if_splits)
qed

lemma proper_cells_update:
  assumes "proper_cells cs"
  shows "proper_cells (cs[k := mark_value m])"
proof -
  have "set (cs[k := mark_value m]) \<subseteq> insert (mark_value m) (set cs)"
    by (rule set_update_subset_insert)
  moreover have "mark_value m = CHR ''X'' \<or> mark_value m = CHR ''O''"
    by (cases m) simp_all
  ultimately show ?thesis
    using assms unfolding proper_cells_def list_all_iff by auto
qed

lemma possible_moves_after:
  assumes c: "constructed s" and p: "proper_cells (cells (grid s))"
    and ms: "possible_moves s = Inr ms" and m: "m \<in> set ms"
  shows "constructed (after_state m)" and "proper_cells (cells (grid (after_state m)))"
proof -
  from ms m have ng: "\<not> game_over s"
    by (auto simp: possible_moves_def split: if_splits)
  from possible_moves_proper(2) [OF c p ng ms m]
  have mv: "make_move_to s (cell_index m) = Inr m" .
  from c mv obtain k where "m = \<lparr>mark = current_mark s, cell_index = cell_index m,
      before_state = s,
      after_state = \<lparr>grid = \<lparr>cells = (cells (grid s))[k := mark_value (current_mark s)]\<rparr>,
                     starting_mark = starting_mark s\<rparr>\<rparr>"
    and c': "constructed (after_state m)"
    by (rule make_move_to_Inr)
  then have "cells (grid (after_state m)) = (cells (grid s))[k := mark_value (current_mark s)]"
    by (metis GameState.select_convs(1) Grid.select_convs(1) Move.select_convs(4))
  with p show "proper_cells (cells (grid (after_state m)))"
    by (simp add: proper_cells_update)
  from c' show "constructed (after_state m)" .
qed

lemma not_over_has_empty:
  assumes "\<not> game_over s" and "length (cells (grid s)) = 9"
  shows "filter (\<lambda>i. cells (grid s) ! i = CHR '' '') [0 ..< 9] \<noteq> []"
proof -
  from assms(1) have "count_list (cells (grid s)) (CHR '' '') \<noteq> 0"
    by (auto simp: game_over_def tie_def empty_count_def)
  then have "CHR '' '' \<in> set (cells (grid s))"
    by (metis count_notin)
  then obtain i where "i < length (cells (grid s))" and "cells (grid s) ! i = CHR '' ''"
    by (auto simp: in_set_conv_nth)
  with assms(2) have "i \<in> set (filter (\<lambda>i. cells (grid s) ! i = CHR '' '') [0 ..< 9])"
    by simp
  then show ?thesis by force
qed

lemma sequence_map:
  assumes "\<And>x. x \<in> set xs \<Longrightarrow> f x = Inr (g x)"
  shows "sequence (map f xs) = Inr (map g xs)"
  using assms by (induction xs) simp_all

lemma evaluate_score_over: "game_over s \<Longrightarrow> \<exists>v. evaluate_score s mk = Inr v"
  by (simp add: evaluate_score_def)

lemma minimax_total:
  assumes "constructed s" and "proper_cells (cells (grid s))"
  shows "\<exists>v. minimax mk s mz chs = Inr v"
  using assms
proof (induction mk s mz chs rule: minimax.induct)
  case (1 mk s mz chs)
  show ?case
  proof (cases "game_over s")
    case True
    then show ?thesis
      using evaluate_score_over [OF True, of mk] by (subst minimax.simps) simp
  next
    case False
    let ?f = "\<lambda>move. minimax mk (after_state move) (\<not> mz) (\<not> chs)"
    from possible_moves_proper(1) [OF "1.prems"] False
    obtain ms where ms: "possible_moves s = Inr ms" and ne: "ms \<noteq> []"
      using not_over_has_empty [OF False] "1.prems"(2) by (auto simp: proper_cells_def)
    have "?f move = Inr (projr (?f move))" if "move \<in> set ms" for move
    proof -
      from possible_moves_after [OF "1.prems" ms that] "1.IH" [OF False ms that]
      obtain v where "?f move = Inr v" by blast
      then show ?thesis by simp
    qed
    then have "sequence (map ?f ms) = Inr (map (\<lambda>move. projr (?f move)) ms)"
      by (rule sequence_map)
    moreover from ne obtain v vs where "map (\<lambda>move. projr (?f move)) ms = v # vs"
      by (cases ms) auto
    ultimately show ?thesis
      using False ms by (subst minimax.simps) simp
  qed
qed

text \<open>Boards and their states.\<close>

lemma state_of_simps:
  "cells (grid (state_of sm b)) = map cell_value b"
  "starting_mark (state_of sm b) = sm"
  by (simp_all add: state_of_def)

lemma cell_value_eq: "cell_value c = cell_value d \<longleftrightarrow> c = d"
proof -
  have "mark_value m = mark_value m' \<longleftrightarrow> m = m'" for m m'
    by (cases m; cases m') simp_all
  moreover have "mark_value m \<noteq> CHR '' ''" for m
    by (cases m) simp_all
  ultimately show ?thesis
    by (cases c; cases d) (simp_all, metis)
qed

lemma cell_value_mark: "cell_value c = mark_value m \<longleftrightarrow> c = Some m"
  using cell_value_eq [of c "Some m"] by simp

lemma cell_value_space: "cell_value c = CHR '' '' \<longleftrightarrow> c = None"
  using cell_value_eq [of c None] by simp

lemma proper_board:
  assumes "length b = 9"
  shows "proper_cells (map cell_value b)"
proof -
  have "cell_value c = CHR ''X'' \<or> cell_value c = CHR ''O'' \<or> cell_value c = CHR '' ''" for c
  proof (cases c)
    case None
    then show ?thesis by simp
  next
    case (Some m)
    then show ?thesis by (cases m) simp_all
  qed
  with assms show ?thesis
    by (simp add: proper_cells_def list_all_iff)
qed

lemma count_board: "count_list (map cell_value b) (cell_value c) = count_list b c"
  by (induction b) (simp_all add: cell_value_eq)

lemma full_count: "full b \<longleftrightarrow> count_list b None = 0"
  by (induction b) auto

lemma nine_board:
  assumes "length b = 9"
  obtains c0 c1 c2 c3 c4 c5 c6 c7 c8 where "b = [c0, c1, c2, c3, c4, c5, c6, c7, c8]"
  using assms by (auto simp: length_Suc_conv numeral_eq_Suc)

lemma won_line:
  assumes "length b = 9"
  shows "won m b \<longleftrightarrow> (\<exists>l \<in> set WINNING_LINES. line_held (map cell_value b) l m)"
proof -
  from assms obtain c0 c1 c2 c3 c4 c5 c6 c7 c8 where b: "b = [c0, c1, c2, c3, c4, c5, c6, c7, c8]"
    by (rule nine_board)
  show ?thesis
    unfolding b won_def WINNING_LINES_def line_held_def
    by (simp add: cell_value_mark Let_def)
qed

lemma line_mark_Some: "line_mark l ms cs = Some m \<Longrightarrow> line_held cs l m"
  by (induction ms) (auto split: if_splits)

lemma line_mark_None: "line_mark l ms cs = None \<longleftrightarrow> (\<forall>m \<in> set ms. \<not> line_held cs l m)"
  by (induction ms) auto

lemma first_line_Some:
  "first_line ls cs = Some (l, m) \<Longrightarrow> l \<in> set ls \<and> line_held cs l m"
proof (induction ls)
  case Nil
  then show ?case by simp
next
  case (Cons a ls)
  show ?case
  proof (cases "line_mark a [CROSS, NAUGHT] cs")
    case None
    with Cons.prems have "first_line ls cs = Some (l, m)"
      by (simp only: first_line.simps option.case)
    with Cons.IH show ?thesis by simp
  next
    case (Some w)
    with Cons.prems have "a = l" and "w = m"
      by (simp_all only: first_line.simps option.case option.inject prod.inject)
    with line_mark_Some [OF Some] show ?thesis by simp
  qed
qed

lemma first_line_None:
  "first_line ls cs = None \<Longrightarrow> l \<in> set ls \<Longrightarrow> \<not> line_held cs l m"
proof (induction ls)
  case Nil
  then show ?case by simp
next
  case (Cons a ls)
  have none: "line_mark a [CROSS, NAUGHT] cs = None"
  proof (cases "line_mark a [CROSS, NAUGHT] cs")
    case None
    then show ?thesis .
  next
    case (Some w)
    with Cons.prems(1) show ?thesis
      by (simp only: first_line.simps option.case option.distinct)
  qed
  with Cons.prems(1) have rest: "first_line ls cs = None"
    by (simp only: first_line.simps option.case)
  have "m \<in> set [CROSS, NAUGHT]"
    by (cases m) simp_all
  with none have "\<not> line_held cs a m"
    unfolding line_mark_None by blast
  with Cons.IH [OF rest] Cons.prems(2) show ?case by auto
qed

lemma winner_board:
  assumes "position sm b m"
  shows "winner (state_of sm b) = (if won (other m) b then Some (other m) else None)"
proof -
  let ?s = "state_of sm b"
  let ?cs = "map cell_value b"
  from assms have len: "length b = 9" and c: "constructed ?s" and cm: "current_mark ?s = m"
    by (simp_all add: position_def)
  have "newline \<notin> set (take 9 ?cs)"
  proof
    assume "newline \<in> set (take 9 ?cs)"
    then have "newline \<in> set ?cs" by (rule in_set_takeD)
    with proper_board [OF len] show False
      by (auto simp: proper_cells_def list_all_iff newline_def)
  qed
  with len have w: "winner ?s = spec_winner ?cs"
    using winner_refines_lines(1) [of ?s] by (simp add: state_of_simps)
  show ?thesis
  proof (cases "first_line WINNING_LINES ?cs")
    case None
    then have "\<not> won (other m) b"
      unfolding won_line [OF len] using first_line_None by blast
    with None w show ?thesis by (simp add: spec_winner_def)
  next
    case (Some lw)
    obtain l w' where lw: "lw = (l, w')" by (cases lw)
    with Some w have ws: "winner ?s = Some w'" by (simp add: spec_winner_def)
    with c cm have w': "w' = other m"
      using winner_is_last_mover by blast
    from Some lw first_line_Some have "l \<in> set WINNING_LINES" and "line_held ?cs l w'"
      by blast+
    then have "won w' b"
      unfolding won_line [OF len] by blast
    with ws w' show ?thesis by simp
  qed
qed

lemma tie_board:
  assumes "position sm b m"
  shows "tie (state_of sm b) \<longleftrightarrow> \<not> won (other m) b \<and> full b"
proof -
  have "empty_count (grid (state_of sm b)) = int (count_list b None)"
    using count_board [of b None] by (simp add: empty_count_def state_of_simps)
  then show ?thesis
    by (simp add: tie_def winner_board [OF assms] full_count)
qed

lemma game_over_board:
  assumes "position sm b m"
  shows "game_over (state_of sm b) \<longleftrightarrow> won (other m) b \<or> full b"
  by (auto simp: game_over_def tie_board [OF assms] winner_board [OF assms])

lemma evaluate_score_board:
  assumes "position sm b m"
  shows "won (other m) b \<Longrightarrow>
           evaluate_score (state_of sm b) mk = Inr (if other m = mk then 1 else - 1)"
    and "\<not> won (other m) b \<Longrightarrow> full b \<Longrightarrow> evaluate_score (state_of sm b) mk = Inr 0"
  by (auto simp: evaluate_score_def game_over_board [OF assms] tie_board [OF assms]
      winner_board [OF assms])

lemma succs_conv:
  "succs m b = map (\<lambda>i. b[i := Some m]) (filter (\<lambda>i. b ! i = None) [0 ..< length b])"
proof (induction b)
  case Nil
  then show ?case by simp
next
  case (Cons c b)
  have upt: "[0 ..< length (c # b)] = 0 # map Suc [0 ..< length b]"
    by (simp add: upt_conv_Cons map_Suc_upt del: upt_Suc)
  have shift: "map (\<lambda>i. (c # b)[i := Some m]) (filter (\<lambda>i. (c # b) ! i = None) (map Suc xs))
      = map ((#) c) (map (\<lambda>i. b[i := Some m]) (filter (\<lambda>i. b ! i = None) xs))" for xs
    by (induction xs) simp_all
  have "succs m (c # b) = (if c = None then [Some m # b] else []) @ map ((#) c) (succs m b)"
    by simp
  also have "map ((#) c) (succs m b)
      = map (\<lambda>i. (c # b)[i := Some m])
          (filter (\<lambda>i. (c # b) ! i = None) (map Suc [0 ..< length b]))"
    unfolding Cons.IH shift ..
  also have "(if c = None then [Some m # b] else []) @
        map (\<lambda>i. (c # b)[i := Some m])
          (filter (\<lambda>i. (c # b) ! i = None) (map Suc [0 ..< length b]))
      = map (\<lambda>i. (c # b)[i := Some m])
          (filter (\<lambda>i. (c # b) ! i = None) (0 # map Suc [0 ..< length b]))"
    by simp
  finally show ?case
    unfolding upt .
qed

lemma state_of_update:
  "state_of sm (b[i := Some m]) =
     \<lparr>grid = \<lparr>cells = (cells (grid (state_of sm b)))[i := mark_value m]\<rparr>,
      starting_mark = starting_mark (state_of sm b)\<rparr>"
  by (simp add: state_of_def map_update)

lemma possible_moves_board:
  assumes p: "position sm b m" and ng: "\<not> game_over (state_of sm b)"
  shows "\<exists>ms. possible_moves (state_of sm b) = Inr ms
           \<and> map after_state ms = map (state_of sm) (succs m b)"
proof -
  let ?s = "state_of sm b"
  let ?F = "\<lambda>i. \<lparr>mark = current_mark ?s, cell_index = i, before_state = ?s,
                  after_state =
                    \<lparr>grid = \<lparr>cells = (cells (grid ?s))[nat i := mark_value (current_mark ?s)]\<rparr>,
                     starting_mark = starting_mark ?s\<rparr>\<rparr>"
  let ?ms = "map ?F (map int (filter (\<lambda>i. cells (grid ?s) ! i = CHR '' '') [0 ..< 9]))"
  from p have len: "length b = 9" and c: "constructed ?s" and cm: "current_mark ?s = m"
    by (simp_all add: position_def)
  have pr: "proper_cells (cells (grid ?s))"
    using proper_board [OF len] by (simp add: state_of_simps)
  from possible_moves_proper(1) [OF c pr] ng have pm: "possible_moves ?s = Inr ?ms"
    by simp
  have flt: "filter (\<lambda>i. cells (grid ?s) ! i = CHR '' '') [0 ..< 9]
      = filter (\<lambda>i. b ! i = None) [0 ..< length b]"
    unfolding len
    by (rule filter_cong) (simp_all add: state_of_simps len cell_value_space)
  have "map after_state ?ms
      = map (\<lambda>i. state_of sm (b[i := Some m])) (filter (\<lambda>i. b ! i = None) [0 ..< length b])"
    unfolding flt by (simp add: comp_def state_of_update cm)
  also have "\<dots> = map (state_of sm) (succs m b)"
    by (simp add: succs_conv comp_def)
  finally show ?thesis
    using pm by blast
qed

lemma succs_position:
  assumes p: "position sm b m" and ng: "\<not> game_over (state_of sm b)"
    and c: "c \<in> set (succs m b)"
  shows "position sm c (other m)" and "count_list c None < count_list b None"
proof -
  let ?s = "state_of sm b"
  from p have len: "length b = 9" and cs: "constructed ?s" and cm: "current_mark ?s = m"
    by (simp_all add: position_def)
  have pr: "proper_cells (cells (grid ?s))"
    using proper_board [OF len] by (simp add: state_of_simps)
  from c obtain i where i: "i < length b" and e: "b ! i = None" and ceq: "c = b[i := Some m]"
    by (auto simp: succs_conv)
  from possible_moves_board [OF p ng] obtain ms where ms: "possible_moves ?s = Inr ms"
    and after: "map after_state ms = map (state_of sm) (succs m b)"
    by blast
  from c have "state_of sm c \<in> set (map after_state ms)"
    unfolding after by simp
  then obtain mv where "mv \<in> set ms" and "after_state mv = state_of sm c"
    by auto
  with possible_moves_after(1) [OF cs pr ms] have cc: "constructed (state_of sm c)"
    by metis
  have k: "i < length (cells (grid ?s))" and sp: "cells (grid ?s) ! i = CHR '' ''"
    using i e by (simp_all add: state_of_simps)
  have "current_mark (state_of sm c) = other m"
    using current_mark_after_move [OF cs k sp] cc
    unfolding ceq state_of_update cm by simp
  with cc len ceq show "position sm c (other m)"
    by (simp add: position_def)
  have "int (count_list (b[i := Some m]) None) = int (count_list b None) - 1"
    using count_list_update [OF i, of "Some m" None] e by simp
  then show "count_list c None < count_list b None"
    unfolding ceq by linarith
qed

text \<open>The score of \<open>minimax\<close> at a board, from the scores at the boards after each move.\<close>

lemma all_lazy_iff: "all_lazy P xs \<longleftrightarrow> (\<forall>x \<in> set xs. P x)"
  by (induction xs) auto

lemma any_lazy_iff: "any_lazy P xs \<longleftrightarrow> (\<exists>x \<in> set xs. P x)"
  by (induction xs) auto

lemma succs_not_full: "\<not> full b \<Longrightarrow> succs m b \<noteq> []"
  by (induction b) (auto split: if_splits)

lemma aggregate_nonempty:
  assumes "vs \<noteq> []"
  shows "aggregate chs vs = Inr (if chs then Max (set vs) else Min (set vs))"
proof -
  from assms obtain v ws where vs: "vs = v # ws" by (cases vs) auto
  show ?thesis
    unfolding vs by (simp add: Max.set_eq_fold Min.set_eq_fold del: set_simps)
qed

lemma other_eq: "(other m = mk) \<longleftrightarrow> (m \<noteq> mk)"
  by (cases m; cases mk) (simp_all add: other_def)

lemma minimax_leaf:
  assumes "position sm b m"
  shows "won (other m) b \<Longrightarrow>
           minimax mk (state_of sm b) mz chs = Inr (if other m = mk then 1 else - 1)"
    and "\<not> won (other m) b \<Longrightarrow> full b \<Longrightarrow> minimax mk (state_of sm b) mz chs = Inr 0"
proof -
  assume w: "won (other m) b"
  then have "game_over (state_of sm b)"
    by (simp add: game_over_board [OF assms])
  then have "minimax mk (state_of sm b) mz chs = evaluate_score (state_of sm b) mk"
    by (subst minimax.simps) simp
  with evaluate_score_board(1) [OF assms w]
  show "minimax mk (state_of sm b) mz chs = Inr (if other m = mk then 1 else - 1)"
    by simp
next
  assume w: "\<not> won (other m) b" and f: "full b"
  then have "game_over (state_of sm b)"
    by (simp add: game_over_board [OF assms])
  then have "minimax mk (state_of sm b) mz chs = evaluate_score (state_of sm b) mk"
    by (subst minimax.simps) simp
  with evaluate_score_board(2) [OF assms w f]
  show "minimax mk (state_of sm b) mz chs = Inr 0"
    by simp
qed

lemma children_scores:
  assumes p: "position sm b m" and ng: "\<not> game_over (state_of sm b)"
  obtains ms vs where "possible_moves (state_of sm b) = Inr ms"
    and "map after_state ms = map (state_of sm) (succs m b)"
    and "sequence (map (\<lambda>mv. minimax mk (after_state mv) mz chs) ms) = Inr vs"
    and "list_all2 (\<lambda>c v. minimax mk (state_of sm c) mz chs = Inr v) (succs m b) vs"
proof -
  let ?s = "state_of sm b"
  let ?g = "\<lambda>s'. projr (minimax mk s' mz chs)"
  let ?vs = "map (\<lambda>c. ?g (state_of sm c)) (succs m b)"
  from possible_moves_board [OF p ng] obtain ms where ms: "possible_moves ?s = Inr ms"
    and after: "map after_state ms = map (state_of sm) (succs m b)"
    by blast
  have child: "minimax mk (state_of sm c) mz chs = Inr (?g (state_of sm c))"
    if "c \<in> set (succs m b)" for c
  proof -
    from succs_position(1) [OF p ng that] have "length c = 9" and cc: "constructed (state_of sm c)"
      by (simp_all add: position_def)
    from proper_board [OF this(1)] have "proper_cells (cells (grid (state_of sm c)))"
      by (simp add: state_of_simps)
    from minimax_total [OF cc this]
    obtain v where "minimax mk (state_of sm c) mz chs = Inr v"
      by blast
    then show ?thesis by simp
  qed
  have "minimax mk (after_state mv) mz chs = Inr (?g (after_state mv))"
    if "mv \<in> set ms" for mv
  proof -
    from that have "after_state mv \<in> set (map after_state ms)" by simp
    then obtain c where "c \<in> set (succs m b)" and "after_state mv = state_of sm c"
      unfolding after by auto
    with child show ?thesis by simp
  qed
  then have "sequence (map (\<lambda>mv. minimax mk (after_state mv) mz chs) ms)
      = Inr (map (\<lambda>mv. ?g (after_state mv)) ms)"
    by (rule sequence_map)
  also have "map (\<lambda>mv. ?g (after_state mv)) ms = map ?g (map after_state ms)"
    by (simp add: comp_def)
  also have "\<dots> = ?vs"
    unfolding after by (simp add: comp_def)
  finally have sq: "sequence (map (\<lambda>mv. minimax mk (after_state mv) mz chs) ms) = Inr ?vs" .
  have "list_all2 (\<lambda>c v. minimax mk (state_of sm c) mz chs = Inr v) (succs m b) ?vs"
    unfolding list_all2_map2 list_all2_same using child by blast
  with ms after sq show thesis
    by (rule that)
qed

lemma minimax_node:
  assumes p: "position sm b m" and nw: "\<not> won (other m) b" and nf: "\<not> full b"
  obtains vs where "list_all2 (\<lambda>c v. minimax mk (state_of sm c) (\<not> mz) (\<not> chs) = Inr v)
                      (succs m b) vs"
    and "vs \<noteq> []"
    and "minimax mk (state_of sm b) mz chs = Inr (if chs then Max (set vs) else Min (set vs))"
proof -
  from nw nf have ng: "\<not> game_over (state_of sm b)"
    by (simp add: game_over_board [OF p])
  from p ng obtain ms vs where ms: "possible_moves (state_of sm b) = Inr ms"
    and sq: "sequence (map (\<lambda>mv. minimax mk (after_state mv) (\<not> mz) (\<not> chs)) ms) = Inr vs"
    and ch: "list_all2 (\<lambda>c v. minimax mk (state_of sm c) (\<not> mz) (\<not> chs) = Inr v) (succs m b) vs"
    by (rule children_scores)
  from ch have "length vs = length (succs m b)"
    by (simp add: list_all2_lengthD)
  with succs_not_full [OF nf, of m] have ne: "vs \<noteq> []"
    by auto
  have "minimax mk (state_of sm b) mz chs = aggregate chs vs"
    using ng ms sq by (subst minimax.simps) simp
  then have "minimax mk (state_of sm b) mz chs = Inr (if chs then Max (set vs) else Min (set vs))"
    using aggregate_nonempty [OF ne] by simp
  with ch ne show thesis
    by (rule that)
qed

text \<open>The bounds that the search finds hold for the score of \<open>minimax\<close>.\<close>

lemma le_chk_sound:
  assumes "le_chk n mk m bound b" and "position sm b m"
    and "minimax mk (state_of sm b) mz (m = mk) = Inr v"
  shows "v \<le> bound"
  using assms
proof (induction n arbitrary: b m mz v)
  case 0
  then show ?case by simp
next
  case (Suc n)
  note p = Suc.prems(2)
  show ?case
  proof (cases "won (other m) b \<or> full b")
    case True
    with Suc.prems(1,3) minimax_leaf [OF p, of mk mz "m = mk"] show ?thesis
      by (auto split: if_splits)
  next
    case False
    then have nw: "\<not> won (other m) b" and nf: "\<not> full b" by simp_all
    from nw nf have ng: "\<not> game_over (state_of sm b)"
      by (simp add: game_over_board [OF p])
    from p nw nf obtain vs
      where ch: "list_all2 (\<lambda>c v. minimax mk (state_of sm c) (\<not> mz) (\<not> (m = mk)) = Inr v)
                   (succs m b) vs"
        and ne: "vs \<noteq> []"
        and val: "minimax mk (state_of sm b) mz (m = mk)
                    = Inr (if m = mk then Max (set vs) else Min (set vs))"
      by (rule minimax_node)
    have flag: "(\<not> (m = mk)) = (other m = mk)"
      by (simp add: other_eq)
    have step: "w \<le> bound"
      if "i < length vs" and "le_chk n mk (other m) bound (succs m b ! i)" and "w = vs ! i" for i w
    proof -
      from ch that(1) have i: "i < length (succs m b)"
        and "minimax mk (state_of sm (succs m b ! i)) (\<not> mz) (other m = mk) = Inr (vs ! i)"
        unfolding flag by (simp_all add: list_all2_conv_all_nth)
      moreover from i have "position sm (succs m b ! i) (other m)"
        using succs_position(1) [OF p ng] by simp
      ultimately show ?thesis
        using Suc.IH that(2,3) by blast
    qed
    from ch have len: "length (succs m b) = length vs"
      by (rule list_all2_lengthD)
    show ?thesis
    proof (cases "m = mk")
      case True
      with Suc.prems(1) nw nf have "\<forall>c \<in> set (succs m b). le_chk n mk (other m) bound c"
        by (simp add: all_lazy_iff)
      then have "\<forall>w \<in> set vs. w \<le> bound"
        using step len by (metis in_set_conv_nth nth_mem)
      with ne have "Max (set vs) \<le> bound" by simp
      with val True Suc.prems(3) show ?thesis by simp
    next
      case False
      with Suc.prems(1) nw nf obtain c where "c \<in> set (succs m b)"
        and "le_chk n mk (other m) bound c"
        by (auto simp: any_lazy_iff)
      then obtain i where "i < length vs" and "le_chk n mk (other m) bound (succs m b ! i)"
        using len by (metis in_set_conv_nth)
      with step have "vs ! i \<le> bound" and "vs ! i \<in> set vs" by simp_all
      with ne have "Min (set vs) \<le> bound"
        by (meson List.finite_set Min_le order_trans)
      with val False Suc.prems(3) show ?thesis by simp
    qed
  qed
qed

lemma ge_chk_sound:
  assumes "ge_chk n mk m bound b" and "position sm b m"
    and "minimax mk (state_of sm b) mz (m = mk) = Inr v"
  shows "bound \<le> v"
  using assms
proof (induction n arbitrary: b m mz v)
  case 0
  then show ?case by simp
next
  case (Suc n)
  note p = Suc.prems(2)
  show ?case
  proof (cases "won (other m) b \<or> full b")
    case True
    with Suc.prems(1,3) minimax_leaf [OF p, of mk mz "m = mk"] show ?thesis
      by (auto split: if_splits)
  next
    case False
    then have nw: "\<not> won (other m) b" and nf: "\<not> full b" by simp_all
    from nw nf have ng: "\<not> game_over (state_of sm b)"
      by (simp add: game_over_board [OF p])
    from p nw nf obtain vs
      where ch: "list_all2 (\<lambda>c v. minimax mk (state_of sm c) (\<not> mz) (\<not> (m = mk)) = Inr v)
                   (succs m b) vs"
        and ne: "vs \<noteq> []"
        and val: "minimax mk (state_of sm b) mz (m = mk)
                    = Inr (if m = mk then Max (set vs) else Min (set vs))"
      by (rule minimax_node)
    have flag: "(\<not> (m = mk)) = (other m = mk)"
      by (simp add: other_eq)
    have step: "bound \<le> w"
      if "i < length vs" and "ge_chk n mk (other m) bound (succs m b ! i)" and "w = vs ! i" for i w
    proof -
      from ch that(1) have i: "i < length (succs m b)"
        and "minimax mk (state_of sm (succs m b ! i)) (\<not> mz) (other m = mk) = Inr (vs ! i)"
        unfolding flag by (simp_all add: list_all2_conv_all_nth)
      moreover from i have "position sm (succs m b ! i) (other m)"
        using succs_position(1) [OF p ng] by simp
      ultimately show ?thesis
        using Suc.IH that(2,3) by blast
    qed
    from ch have len: "length (succs m b) = length vs"
      by (rule list_all2_lengthD)
    show ?thesis
    proof (cases "m = mk")
      case False
      with Suc.prems(1) nw nf have "\<forall>c \<in> set (succs m b). ge_chk n mk (other m) bound c"
        by (simp add: all_lazy_iff)
      then have "\<forall>w \<in> set vs. bound \<le> w"
        using step len by (metis in_set_conv_nth nth_mem)
      with ne have "bound \<le> Min (set vs)" by simp
      with val False Suc.prems(3) show ?thesis by simp
    next
      case True
      with Suc.prems(1) nw nf obtain c where "c \<in> set (succs m b)"
        and "ge_chk n mk (other m) bound c"
        by (auto simp: any_lazy_iff)
      then obtain i where "i < length vs" and "ge_chk n mk (other m) bound (succs m b ! i)"
        using len by (metis in_set_conv_nth)
      with step have "bound \<le> vs ! i" and "vs ! i \<in> set vs" by simp_all
      with ne have "bound \<le> Max (set vs)"
        by (meson List.finite_set Max_ge order_trans)
      with val True Suc.prems(3) show ?thesis by simp
    qed
  qed
qed

text \<open>The move that \<open>pick\<close> finds is the move of \<open>find_best_move\<close>.\<close>

lemma first_max_keep:
  assumes "\<forall>q \<in> set xs. fst q \<le> fst best"
  shows "first_max best xs = snd best"
  using assms by (induction xs) auto

lemma first_max_later:
  assumes "fst best < fst p" and "\<forall>q \<in> set pre. fst q < fst p"
    and "\<forall>q \<in> set post. fst q \<le> fst p"
  shows "first_max best (pre @ p # post) = snd p"
  using assms
proof (induction pre arbitrary: best)
  case Nil
  then show ?case by (simp add: first_max_keep)
next
  case (Cons x pre)
  then have "fst (if fst best < fst x then x else best) < fst p"
    by simp
  from Cons.IH [OF this] Cons.prems(2,3) show ?case by simp
qed

lemma first_max_nth:
  assumes k: "k < length (x # xs)"
    and before: "\<forall>j < k. fst ((x # xs) ! j) < fst ((x # xs) ! k)"
    and all: "\<forall>j < length (x # xs). fst ((x # xs) ! j) \<le> fst ((x # xs) ! k)"
  shows "first_max x xs = snd ((x # xs) ! k)"
proof (cases k)
  case 0
  with all have "\<forall>q \<in> set xs. fst q \<le> fst x"
    by (metis in_set_conv_nth length_Cons not_less_eq nth_Cons_0 nth_Cons_Suc)
  with 0 show ?thesis by (simp add: first_max_keep)
next
  case (Suc j)
  with k have j: "j < length xs" by simp
  let ?p = "xs ! j"
  have split: "xs = take j xs @ ?p # drop (Suc j) xs"
    using j by (rule id_take_nth_drop)
  have "fst x < fst ?p"
    using before Suc by force
  moreover have "\<forall>q \<in> set (take j xs). fst q < fst ?p"
  proof
    fix q assume "q \<in> set (take j xs)"
    then obtain i where "i < j" and "q = xs ! i"
      using j by (auto simp: in_set_conv_nth)
    with before Suc show "fst q < fst ?p"
      by (metis Suc_less_eq nth_Cons_Suc)
  qed
  moreover have "\<forall>q \<in> set (drop (Suc j) xs). fst q \<le> fst ?p"
  proof
    fix q assume "q \<in> set (drop (Suc j) xs)"
    then have "q \<in> set xs" by (rule in_set_dropD)
    then obtain i where "i < length xs" and "q = xs ! i"
      by (auto simp: in_set_conv_nth)
    with all Suc show "fst q \<le> fst ?p"
      by (metis Suc_less_eq length_Cons nth_Cons_Suc)
  qed
  ultimately have "first_max x (take j xs @ ?p # drop (Suc j) xs) = snd ?p"
    by (rule first_max_later)
  with split Suc show ?thesis by simp
qed

lemma pick_Some:
  assumes "pick m cs = Some b'"
  shows "\<exists>k < length cs. cs ! k = b'
           \<and> (\<forall>j < k. le_chk 9 m (other m) (- 1) (cs ! j))
           \<and> ge_chk 9 m (other m) 0 b'
           \<and> (\<forall>j < length cs. k \<le> j \<longrightarrow> le_chk 9 m (other m) 0 (cs ! j))"
  using assms
proof (induction cs)
  case Nil
  then show ?case by simp
next
  case (Cons c cs)
  show ?case
  proof (cases "le_chk 9 m (other m) (- 1) c")
    case True
    with Cons.prems have "pick m cs = Some b'" by simp
    from Cons.IH [OF this] obtain k where k: "k < length cs" "cs ! k = b'"
      "\<forall>j < k. le_chk 9 m (other m) (- 1) (cs ! j)" "ge_chk 9 m (other m) 0 b'"
      "\<forall>j < length cs. k \<le> j \<longrightarrow> le_chk 9 m (other m) 0 (cs ! j)"
      by blast
    have "\<forall>j < Suc k. le_chk 9 m (other m) (- 1) ((c # cs) ! j)"
      using True k(3) by (simp add: nth_Cons split: nat.split)
    moreover have "\<forall>j < length (c # cs). Suc k \<le> j \<longrightarrow> le_chk 9 m (other m) 0 ((c # cs) ! j)"
      using k(5) by (simp add: nth_Cons split: nat.split)
    ultimately show ?thesis
      using k(1,2,4) by (intro exI [of _ "Suc k"]) simp
  next
    case False
    with Cons.prems have g: "ge_chk 9 m (other m) 0 c"
      and a: "all_lazy (le_chk 9 m (other m) 0) (c # cs)" and b': "b' = c"
      by (auto split: if_splits)
    from a have "\<forall>j < length (c # cs). le_chk 9 m (other m) 0 ((c # cs) ! j)"
      unfolding all_lazy_iff by (metis nth_mem)
    with g b' show ?thesis
      by (intro exI [of _ 0]) simp
  qed
qed

lemma find_best_move_board:
  assumes p: "position sm b m" and nw: "\<not> won (other m) b" and nf: "\<not> full b"
    and pk: "pick m (succs m b) = Some b'"
  shows "\<exists>mv. find_best_move (state_of sm b) = Inr mv \<and> after_state mv = state_of sm b'"
proof -
  let ?s = "state_of sm b"
  from p have cm: "current_mark ?s = m"
    by (simp add: position_def)
  from nw nf have ng: "\<not> game_over ?s"
    by (simp add: game_over_board [OF p])
  from p ng obtain ms vs where ms: "possible_moves ?s = Inr ms"
    and after: "map after_state ms = map (state_of sm) (succs m b)"
    and sq: "sequence (map (\<lambda>mv. minimax m (after_state mv) False False) ms) = Inr vs"
    and ch: "list_all2 (\<lambda>c v. minimax m (state_of sm c) False False = Inr v) (succs m b) vs"
    by (rule children_scores)
  from ch have lv: "length vs = length (succs m b)"
    by (simp add: list_all2_lengthD)
  from after have lm: "length ms = length (succs m b)"
    by (metis length_map)
  from pick_Some [OF pk] obtain k where k: "k < length (succs m b)"
    and kb: "succs m b ! k = b'"
    and pre: "\<forall>j < k. le_chk 9 m (other m) (- 1) (succs m b ! j)"
    and ge: "ge_chk 9 m (other m) 0 b'"
    and post: "\<forall>j < length (succs m b). k \<le> j \<longrightarrow> le_chk 9 m (other m) 0 (succs m b ! j)"
    by blast
  have flag: "(other m = m) = False"
    by (simp add: other_eq)
  have val: "minimax m (state_of sm (succs m b ! j)) False (other m = m) = Inr (vs ! j)"
    and pos: "position sm (succs m b ! j) (other m)" if "j < length (succs m b)" for j
    using ch that succs_position(1) [OF p ng] unfolding flag
    by (simp_all add: list_all2_conv_all_nth)
  have low: "vs ! j \<le> - 1" if "j < k" for j
  proof -
    from that k have j: "j < length (succs m b)" by simp
    from pre that have "le_chk 9 m (other m) (- 1) (succs m b ! j)" by simp
    then show ?thesis
      using pos [OF j] val [OF j] by (rule le_chk_sound)
  qed
  have top: "vs ! j \<le> 0" if j: "j < length (succs m b)" and "k \<le> j" for j
  proof -
    from post that have "le_chk 9 m (other m) 0 (succs m b ! j)" by simp
    then show ?thesis
      using pos [OF j] val [OF j] by (rule le_chk_sound)
  qed
  have best: "0 \<le> vs ! k"
  proof -
    from ge kb have "ge_chk 9 m (other m) 0 (succs m b ! k)" by simp
    then show ?thesis
      using pos [OF k] val [OF k] by (rule ge_chk_sound)
  qed
  from k lv lm obtain x xs where z: "zip vs ms = x # xs"
    by (cases "zip vs ms") auto
  have zn: "(x # xs) ! j = (vs ! j, ms ! j)" if "j < length (succs m b)" for j
    using that lv lm unfolding z [symmetric] by simp
  have zl: "length (x # xs) = length (succs m b)"
    using lv lm unfolding z [symmetric] by simp
  have "first_max x xs = snd ((x # xs) ! k)"
  proof (rule first_max_nth)
    show "k < length (x # xs)"
      using k zl by simp
    show "\<forall>j < k. fst ((x # xs) ! j) < fst ((x # xs) ! k)"
      using low best k zn by fastforce
    show "\<forall>j < length (x # xs). fst ((x # xs) ! j) \<le> fst ((x # xs) ! k)"
    proof (intro allI impI)
      fix j assume "j < length (x # xs)"
      then have j: "j < length (succs m b)" using zl by simp
      show "fst ((x # xs) ! j) \<le> fst ((x # xs) ! k)"
      proof (cases "j < k")
        case True
        with low [OF True] best zn [OF j] zn [OF k] show ?thesis by simp
      next
        case False
        with top [OF j] best zn [OF j] zn [OF k] show ?thesis by simp
      qed
    qed
  qed
  then have fm: "first_max x xs = ms ! k"
    using zn [OF k] by simp
  have "find_best_move ?s = Inr (first_max x xs)"
    using ms sq z by (simp add: find_best_move_def cm)
  moreover have "after_state (ms ! k) = state_of sm b'"
  proof -
    from k lm have "after_state (ms ! k) = map after_state ms ! k" by simp
    also have "\<dots> = state_of sm (succs m b ! k)"
      unfolding after using k by simp
    finally show ?thesis
      using kb by simp
  qed
  ultimately show ?thesis
    using fm by simp
qed

section \<open>The minimax player against itself\<close>

lemma not_started_board:
  "game_not_started (state_of sm b) \<longleftrightarrow> count_list b None = 9"
  using count_board [of b None]
  by (simp add: game_not_started_def empty_count_def state_of_simps)

lemma minimax_player_moves:
  assumes p: "position sm b m" and nw: "\<not> won (other m) b" and nf: "\<not> full b"
    and pk: "pick m (succs m b) = Some b'" and started: "count_list b None < 9"
    and marks: "m1 \<noteq> m2"
  shows "make_move (get_current_player (MinimaxComputerPlayer m1) (MinimaxComputerPlayer m2)
                      (state_of sm b)) (state_of sm b) r
         = Inr (state_of sm b')"
proof -
  let ?s = "state_of sm b"
  let ?p = "get_current_player (MinimaxComputerPlayer m1) (MinimaxComputerPlayer m2) ?s"
  from p have cm: "current_mark ?s = m"
    by (simp add: position_def)
  have "m = m1 \<or> m = m2"
    using marks by (cases m; cases m1; cases m2) simp_all
  then have pl: "?p = MinimaxComputerPlayer m"
    using cm by (auto simp: get_current_player_def)
  from started have ns: "\<not> game_not_started ?s"
    by (simp add: not_started_board)
  from find_best_move_board [OF p nw nf pk] obtain mv
    where "find_best_move ?s = Inr mv" and "after_state mv = state_of sm b'"
    by blast
  then show ?thesis
    unfolding pl by (simp add: make_move_def cm ns)
qed

lemma play_loop_board:
  assumes "play_chk n m b" and "position sm b m" and "count_list b None < 9"
    and "m1 \<noteq> m2"
  shows "\<exists>s. play_loop n (MinimaxComputerPlayer m1) (MinimaxComputerPlayer m2) rnd t
                (state_of sm b) = Some (Inr s) \<and> tie s"
  using assms
proof (induction n arbitrary: b m t)
  case 0
  then show ?case by simp
next
  case (Suc n)
  note p = Suc.prems(2)
  from Suc.prems(1) have nw: "\<not> won (other m) b"
    by (simp split: if_splits)
  show ?case
  proof (cases "full b")
    case True
    with nw have "tie (state_of sm b)" and "game_over (state_of sm b)"
      by (simp_all add: tie_board [OF p] game_over_board [OF p])
    then show ?thesis by simp
  next
    case False
    with nw have ng: "\<not> game_over (state_of sm b)"
      by (simp add: game_over_board [OF p])
    from Suc.prems(1) nw False obtain b' where pk: "pick m (succs m b) = Some b'"
      and chk: "play_chk n (other m) b'"
      by (auto split: option.splits)
    from pick_Some [OF pk] have mem: "b' \<in> set (succs m b)"
      by (metis nth_mem)
    note child = succs_position [OF p ng mem]
    from child(2) Suc.prems(3) have "count_list b' None < 9" by simp
    with Suc.IH [OF chk child(1) _ Suc.prems(4)]
    obtain s where "play_loop n (MinimaxComputerPlayer m1) (MinimaxComputerPlayer m2) rnd (Suc t)
        (state_of sm b') = Some (Inr s)" and "tie s"
      by blast
    moreover have "make_move (get_current_player (MinimaxComputerPlayer m1)
        (MinimaxComputerPlayer m2) (state_of sm b)) (state_of sm b) (rnd t) = Inr (state_of sm b')"
      using p nw False pk Suc.prems(3,4) by (rule minimax_player_moves)
    ultimately show ?thesis
      using ng by simp
  qed
qed

lemma empty_board_position: "position sm (replicate 9 None) sm"
proof -
  have "constructed (state_of CROSS (replicate 9 None))"
    and "constructed (state_of NAUGHT (replicate 9 None))"
    and "current_mark (state_of CROSS (replicate 9 None)) = CROSS"
    and "current_mark (state_of NAUGHT (replicate 9 None)) = NAUGHT"
    by code_simp+
  then show ?thesis
    by (cases sm) (simp_all add: position_def)
qed

lemma empty_board_open: "\<not> won m (replicate 9 None)" "\<not> full (replicate 9 None)"
proof -
  have "\<not> won CROSS (replicate 9 None)" and "\<not> won NAUGHT (replicate 9 None)"
    by code_simp+
  then show "\<not> won m (replicate 9 None)"
    by (cases m) simp_all
  show "\<not> full (replicate 9 None)"
    by code_simp
qed

lemma opening_move:
  assumes marks: "m1 \<noteq> m2"
  shows "\<exists>c \<in> set (succs sm (replicate 9 None)).
           make_move (get_current_player (MinimaxComputerPlayer m1) (MinimaxComputerPlayer m2)
                        (state_of sm (replicate 9 None))) (state_of sm (replicate 9 None)) r
           = Inr (state_of sm c)"
proof -
  let ?b = "replicate 9 None :: board"
  let ?s = "state_of sm ?b"
  let ?p = "get_current_player (MinimaxComputerPlayer m1) (MinimaxComputerPlayer m2) ?s"
  note p = empty_board_position [of sm]
  from p have cm: "current_mark ?s = sm"
    by (simp add: position_def)
  have "sm = m1 \<or> sm = m2"
    using marks by (cases sm; cases m1; cases m2) simp_all
  then have pl: "?p = MinimaxComputerPlayer sm"
    using cm by (auto simp: get_current_player_def)
  have "count_list ?b None = 9"
    by code_simp
  then have ns: "game_not_started ?s"
    by (simp add: not_started_board)
  have ng: "\<not> game_over ?s"
    using empty_board_open by (simp add: game_over_board [OF p])
  from possible_moves_board [OF p ng] obtain ms where ms: "possible_moves ?s = Inr ms"
    and after: "map after_state ms = map (state_of sm) (succs sm ?b)"
    by blast
  from after have len: "length ms = length (succs sm ?b)"
    by (metis length_map)
  have ne: "succs sm ?b \<noteq> []"
    using empty_board_open(2) by (rule succs_not_full)
  with len have mne: "ms \<noteq> []" by auto
  let ?k = "r mod length ms"
  from mne have k: "?k < length ms" by simp
  have "after_state (ms ! ?k) = map after_state ms ! ?k"
    using k by simp
  also have "\<dots> = state_of sm (succs sm ?b ! ?k)"
    unfolding after using k len by simp
  finally have a: "after_state (ms ! ?k) = state_of sm (succs sm ?b ! ?k)" .
  have "make_move ?p ?s r = Inr (after_state (ms ! ?k))"
    unfolding pl using ms mne by (simp add: make_move_def cm ns make_random_move_def)
  with a k len show ?thesis
    by (intro bexI [of _ "succs sm ?b ! ?k"]) simp_all
qed

text \<open>
  After each of the nine opening moves, for either mark, the moves of
  \<open>find_best_move\<close> lead to a tie.
\<close>

lemma self_play_from_cross:
  "all_lazy (play_chk 9 NAUGHT) (succs CROSS (replicate 9 None))"
  by code_simp

lemma self_play_from_naught:
  "all_lazy (play_chk 9 CROSS) (succs NAUGHT (replicate 9 None))"
  by code_simp

text \<open>
  C9: the minimax computer player against itself, from the empty board, always ends
  in a tie: for every two minimax players that \<open>TicTacToe\<close> accepts (their marks
  differ), every starting mark and every random draw \<open>rnd\<close> (the first move is the only
  random one), \<open>play\<close> ends within ten rounds, without an exception, in a state that
  is a tie.
\<close>

theorem minimax_self_play_ties:
  assumes "validate_players (MinimaxComputerPlayer m1) (MinimaxComputerPlayer m2) = Inr ()"
  shows "\<exists>s. play 10 (MinimaxComputerPlayer m1) (MinimaxComputerPlayer m2) rnd starting
               = Some (Inr s) \<and> tie s"
proof -
  let ?b = "replicate 9 None :: board"
  let ?s = "state_of starting ?b"
  let ?p1 = "MinimaxComputerPlayer m1" and ?p2 = "MinimaxComputerPlayer m2"
  from assms have marks: "m1 \<noteq> m2"
    by (simp add: validate_players_def split: if_splits)
  note p = empty_board_position [of starting]
  have cells: "map cell_value ?b = replicate 9 (CHR '' '')"
    by simp
  from p have "constructed ?s"
    by (simp add: position_def)
  then have init: "new_Grid (replicate 9 (CHR '' '')) = Inr \<lparr>cells = replicate 9 (CHR '' '')\<rparr>"
    "new_GameState \<lparr>cells = replicate 9 (CHR '' '')\<rparr> starting = Inr ?s"
    unfolding constructed_def state_of_def cells
    by (simp_all add: new_Grid_def new_GameState_def)
  have ng: "\<not> game_over ?s"
    using empty_board_open by (simp add: game_over_board [OF p])
  from opening_move [OF marks, of starting "rnd 0"] obtain c
    where c: "c \<in> set (succs starting ?b)"
      and mv: "make_move (get_current_player ?p1 ?p2 ?s) ?s (rnd 0) = Inr (state_of starting c)"
    by blast
  have "all_lazy (play_chk 9 (other starting)) (succs starting ?b)"
    using self_play_from_cross self_play_from_naught
    by (cases starting) (simp_all add: other_def)
  with c have chk: "play_chk 9 (other starting) c"
    by (simp add: all_lazy_iff)
  note child = succs_position [OF p ng c]
  have "count_list ?b None = 9" by code_simp
  with child(2) have "count_list c None < 9" by simp
  from play_loop_board [OF chk child(1) this marks, of rnd "Suc 0"]
  obtain s where "play_loop 9 ?p1 ?p2 rnd (Suc 0) (state_of starting c) = Some (Inr s)"
    and "tie s"
    by blast
  moreover have "play_loop (Suc 9) ?p1 ?p2 rnd 0 ?s
      = play_loop 9 ?p1 ?p2 rnd (Suc 0) (state_of starting c)"
    by (subst play_loop.simps) (simp add: ng mv)
  moreover have "play 10 ?p1 ?p2 rnd starting = play_loop (Suc 9) ?p1 ?p2 rnd 0 ?s"
    by (simp add: play_def init)
  ultimately show ?thesis
    by simp
qed

theorem minimax_self_play_ties_witness:
  "validate_players (MinimaxComputerPlayer CROSS) (MinimaxComputerPlayer NAUGHT) = Inr ()
   \<and> (\<exists>s. play 10 (MinimaxComputerPlayer CROSS) (MinimaxComputerPlayer NAUGHT) (\<lambda>t. 4) CROSS
             = Some (Inr s) \<and> tie s)"
proof -
  have v: "validate_players (MinimaxComputerPlayer CROSS) (MinimaxComputerPlayer NAUGHT) = Inr ()"
    by (simp add: validate_players_def)
  from minimax_self_play_ties [OF v] v show ?thesis by blast
qed

end
